theory Spec2Isabelle
  imports Complex_Main "HOL-Library.Word" "HOL-Library.Multiset"
begin

section \<open>Conventions of the embedding\<close>

text \<open>
  The development follows the Go sources of the load generator: the worker's pacing
  (\<^verbatim>\<open>internal/engine/worker.go\<close>), the engine's run sequence, the metrics collector, the
  response validator and the HTTP protocol client.

  \<^item> A \<^verbatim>\<open>time.Duration\<close> is a signed 64-bit count of nanoseconds. It is modelled by its
    signed value, an \<open>int\<close>; the durations of a run (seconds to hours) are far from
    \<open>2 ^ 63\<close>, and the places where a sum is accumulated without bound are
    wrapped explicitly (\<open>wrap64\<close>).
  \<^item> The \<^verbatim>\<open>int64\<close> counters of the collector, which are only ever incremented, are
    \<open>64 word\<close>: addition wraps as the hardware's does.
  \<^item> A finite \<^verbatim>\<open>float64\<close> is the real number that it denotes. Every operation rounds
    to the nearest \<^verbatim>\<open>float64\<close>, ties to even (\<open>round64\<close>), and overflows to an
    infinity (\<open>float64_of\<close>). The sign of a zero is not kept, and no operation of the
    code yields a NaN from finite arguments.
  \<^item> A Go \<^verbatim>\<open>error\<close> is modelled by its text, \<^verbatim>\<open>err.Error()\<close>; a nil error or a
    nil pointer is \<open>None\<close>.
  \<^item> A Go map is a partial function; where the code iterates over a map, the order
    of the iteration is given by an association list.
  \<^item> Reads of the wall clock are explicit arguments of the function that reads.
\<close>

type_synonym Duration = int

definition Millisecond :: Duration where
  "Millisecond = 1000000"

definition Second :: Duration where
  "Second = 1000000000"

definition go_quot :: "int \<Rightarrow> int \<Rightarrow> int" where
  \<comment> \<open>Go's integer division truncates towards zero.\<close>
  "go_quot a b = sgn a * sgn b * (\<bar>a\<bar> div \<bar>b\<bar>)"

definition wrap64 :: "int \<Rightarrow> int" where
  \<comment> \<open>The signed value of a 64-bit two's complement result.\<close>
  "wrap64 x = (x + 2 ^ 63) mod 2 ^ 64 - 2 ^ 63"

section \<open>Floating point\<close>

text \<open>
  A finite \<^verbatim>\<open>float64\<close> is modelled by the real number that it denotes. Every conversion
  and every arithmetic operation yields its exact result rounded to the nearest
  \<^verbatim>\<open>float64\<close>, a tie going to the even significand (\<open>round64\<close>): 53 bits of
  significand from \<open>2 powi (- 1022)\<close> upwards, and the fixed quantum
  \<open>2 powi (- 1074)\<close> of the subnormal numbers below.
\<close>

definition round_half_even :: "real \<Rightarrow> int" where
  "round_half_even y =
     (let f = \<lfloor>y\<rfloor> in
      if y - of_int f < 1 / 2 then f
      else if y - of_int f > 1 / 2 then f + 1
      else if even f then f else f + 1)"

definition exponent :: "real \<Rightarrow> int" where
  "exponent x = max \<lfloor>log 2 \<bar>x\<bar>\<rfloor> (- 1022)"

definition round64 :: "real \<Rightarrow> real" where
  "round64 x =
     (if x = 0 then 0
      else let e = exponent x
           in of_int (round_half_even (x * 2 powi (52 - e))) * 2 powi (e - 52))"

text \<open>
  The result of an operation: a result that rounds to \<open>2 ^ 1024\<close> or beyond is an
  infinity.
\<close>

datatype float64 = Finite real | PosInf | NegInf

definition float64_of :: "real \<Rightarrow> float64" where
  "float64_of r =
     (let v = round64 r
      in if 2 ^ 1024 \<le> v then PosInf else if v \<le> - (2 ^ 1024) then NegInf else Finite v)"

definition float_mul :: "real \<Rightarrow> real \<Rightarrow> float64" where
  "float_mul a b = float64_of (a * b)"

text \<open>
  A floating-point division does not panic: a positive dividend over a zero divisor is
  the positive infinity. The dividends of the code are positive constants or products
  that are divided by the constant 100.
\<close>

definition float_div :: "real \<Rightarrow> real \<Rightarrow> float64" where
  "float_div a b = (if b = 0 then PosInf else float64_of (a / b))"

text \<open>The division of a result by a positive constant: an infinity stays what it is.\<close>

definition float_over :: "float64 \<Rightarrow> real \<Rightarrow> float64" where
  "float_over q b =
     (case q of Finite a \<Rightarrow> float_div a b | PosInf \<Rightarrow> PosInf | NegInf \<Rightarrow> NegInf)"

definition trunc :: "real \<Rightarrow> int" where
  "trunc r = (if 0 \<le> r then \<lfloor>r\<rfloor> else \<lceil>r\<rceil>)"

text \<open>
  \<^verbatim>\<open>time.Duration(f)\<close> and \<^verbatim>\<open>int(f)\<close>: the conversion of a float to \<^verbatim>\<open>int64\<close> truncates
  towards zero. For a value that \<^verbatim>\<open>int64\<close> cannot represent the conversion succeeds
  with a result that depends on the implementation; the parameter \<open>conv\<close> is that
  result.
\<close>

definition toDuration :: "(float64 \<Rightarrow> int) \<Rightarrow> float64 \<Rightarrow> Duration" where
  "toDuration conv q =
     (case q of
        Finite r \<Rightarrow> (if - (2 ^ 63) \<le> trunc r \<and> trunc r < 2 ^ 63 then trunc r else conv q)
      | PosInf \<Rightarrow> conv q
      | NegInf \<Rightarrow> conv q)"

definition conv_amd64 :: "float64 \<Rightarrow> int" where
  \<comment> \<open>On amd64 every unrepresentable value converts to the smallest \<^verbatim>\<open>int64\<close>.\<close>
  "conv_amd64 q = - (2 ^ 63)"

definition conv_arm64 :: "float64 \<Rightarrow> int" where
  \<comment> \<open>On arm64 the conversion saturates.\<close>
  "conv_arm64 q =
     (case q of
        Finite r \<Rightarrow> (if r < 0 then - (2 ^ 63) else 2 ^ 63 - 1)
      | PosInf \<Rightarrow> 2 ^ 63 - 1
      | NegInf \<Rightarrow> - (2 ^ 63))"

section \<open>Load patterns and pacing (worker.go)\<close>

text \<open>
  The fields of \<^verbatim>\<open>config.LoadTestConfig\<close> that the worker reads. The other fields
  (reporting, transport and override settings) are read by no function below.
\<close>

record LoadTestConfig =
  Pattern :: string
  Duration :: Duration
  RampUp :: Duration
  RampDown :: Duration
  Delay :: Duration
  MaxRequests :: int

record LoadPhase =
  ph_Duration :: Duration
  ph_Intensity :: real

record LoadPattern =
  Type :: string
  Phases :: "LoadPhase list"

definition calculateSpikePattern :: "LoadTestConfig \<Rightarrow> LoadPattern" where
  "calculateSpikePattern config =
     (let duration = Duration config in
      \<lparr>Type = ''spike'',
       Phases = [\<lparr>ph_Duration = go_quot duration 4, ph_Intensity = round64 (2 / 10)\<rparr>,
                 \<lparr>ph_Duration = go_quot duration 4, ph_Intensity = 1\<rparr>,
                 \<lparr>ph_Duration = go_quot duration 2, ph_Intensity = round64 (2 / 10)\<rparr>]\<rparr>)"

definition calculateSteadyPattern :: "LoadTestConfig \<Rightarrow> LoadPattern" where
  "calculateSteadyPattern config =
     \<lparr>Type = ''steady'',
      Phases = [\<lparr>ph_Duration = RampUp config, ph_Intensity = 0\<rparr>,
                \<lparr>ph_Duration = Duration config - RampUp config - RampDown config,
                 ph_Intensity = 1\<rparr>,
                \<lparr>ph_Duration = RampDown config, ph_Intensity = 0\<rparr>]\<rparr>"

definition calculateRampUpPattern :: "LoadTestConfig \<Rightarrow> LoadPattern" where
  "calculateRampUpPattern config =
     (let duration = Duration config in
      \<lparr>Type = ''ramp-up'',
       Phases = [\<lparr>ph_Duration = duration, ph_Intensity = 0\<rparr>]\<rparr>)"

definition calculateStressPattern :: "LoadTestConfig \<Rightarrow> LoadPattern" where
  "calculateStressPattern config =
     (let duration = Duration config in
      \<lparr>Type = ''stress'',
       Phases = [\<lparr>ph_Duration = go_quot duration 3, ph_Intensity = 5 / 10\<rparr>,
                 \<lparr>ph_Duration = go_quot duration 3, ph_Intensity = 1\<rparr>,
                 \<lparr>ph_Duration = go_quot duration 3, ph_Intensity = 15 / 10\<rparr>]\<rparr>)"

definition calculateLoadPattern :: "LoadTestConfig \<Rightarrow> LoadPattern" where
  "calculateLoadPattern config =
     (if Pattern config = ''spike'' then calculateSpikePattern config
      else if Pattern config = ''steady'' then calculateSteadyPattern config
      else if Pattern config = ''ramp-up'' then calculateRampUpPattern config
      else if Pattern config = ''stress'' then calculateStressPattern config
      else calculateSteadyPattern config)"

text \<open>
  The loop of \<^verbatim>\<open>calculateDelay\<close> that looks for the current phase: it returns the first
  phase whose window ends after \<open>elapsed\<close>, with the start of that window, and
  \<open>None\<close> when the loop ends with \<^verbatim>\<open>currentPhase == nil\<close>.
\<close>

fun findPhase :: "Duration \<Rightarrow> Duration \<Rightarrow> LoadPhase list \<Rightarrow> (LoadPhase \<times> Duration) option" where
  "findPhase elapsed phaseStart [] = None"
| "findPhase elapsed phaseStart (phase # rest) =
     (if elapsed < phaseStart + ph_Duration phase then Some (phase, phaseStart)
      else findPhase elapsed (phaseStart + ph_Duration phase) rest)"

text \<open>
  \<^verbatim>\<open>progress := float64(elapsed) / float64(phase.Duration)\<close>: both conversions round, and
  so does the division. The divisor is not zero and the quotient of two converted
  \<^verbatim>\<open>int64\<close> is between \<open>2 powi (- 63)\<close> and \<open>2 ^ 63\<close> in magnitude, or zero:
  it neither overflows nor underflows.
\<close>

definition calculateIntensity :: "LoadTestConfig \<Rightarrow> LoadPhase \<Rightarrow> Duration \<Rightarrow> real" where
  "calculateIntensity config phase elapsed =
     (if ph_Duration phase = 0 then ph_Intensity phase
      else
        let progress = round64 (round64 (real_of_int elapsed)
                                  / round64 (real_of_int (ph_Duration phase)));
            progress = (if progress > 1 then 1 else progress)
        in if Pattern config = ''ramp-up'' then progress else ph_Intensity phase)"

text \<open>
  The local variable \<^verbatim>\<open>intensity\<close> of \<^verbatim>\<open>calculateDelay\<close>, as a function of the local
  \<^verbatim>\<open>elapsed\<close>: \<open>None\<close> when no phase is current and the function returns before it
  computes an intensity.
\<close>

definition currentIntensity :: "LoadTestConfig \<Rightarrow> LoadPattern \<Rightarrow> Duration \<Rightarrow> real option" where
  "currentIntensity config pattern elapsed =
     (case findPhase elapsed 0 (Phases pattern) of
        None \<Rightarrow> None
      | Some (phase, phaseStart) \<Rightarrow> Some (calculateIntensity config phase (elapsed - phaseStart)))"

text \<open>
  \<^verbatim>\<open>calculateDelay\<close> after its first statement, with the local \<^verbatim>\<open>elapsed\<close> as an argument.
\<close>

definition delayAt :: "(float64 \<Rightarrow> int) \<Rightarrow> LoadTestConfig \<Rightarrow> LoadPattern \<Rightarrow> Duration \<Rightarrow> Duration" where
  "delayAt conv config pattern elapsed =
     (case findPhase elapsed 0 (Phases pattern) of
        None \<Rightarrow> 0
      | Some (phase, phaseStart) \<Rightarrow>
          (let intensity = calculateIntensity config phase (elapsed - phaseStart);
               baseDelay = 100 * Millisecond
           in toDuration conv (float_div (round64 (real_of_int baseDelay)) intensity)))"

text \<open>
  \<^verbatim>\<open>elapsed := time.Since(time.Now().Add(-config.Duration))\<close> reads the clock twice:
  \<open>now1\<close> is the reading of \<^verbatim>\<open>time.Now()\<close>, \<open>now2\<close> the later reading inside
  \<^verbatim>\<open>time.Since\<close>.
\<close>

definition time_Since :: "int \<Rightarrow> int \<Rightarrow> Duration" where
  "time_Since now t = now - t"

definition calculateDelay ::
  "(float64 \<Rightarrow> int) \<Rightarrow> LoadTestConfig \<Rightarrow> LoadPattern \<Rightarrow> int \<Rightarrow> int \<Rightarrow> Duration" where
  "calculateDelay conv config pattern now1 now2 =
     (let elapsed = time_Since now2 (now1 + (- Duration config))
      in delayAt conv config pattern elapsed)"

text \<open>
  One pass through the body of the loop of \<^verbatim>\<open>Worker.Run\<close>: the state in which the
  worker leaves the pass and what it did, in order.
\<close>

datatype action = Sleep Duration | ExecuteRequest

datatype worker_state = Running | Cancelled | ReachedRequestCap

definition Run_iteration ::
  "(float64 \<Rightarrow> int) \<Rightarrow> LoadTestConfig \<Rightarrow> LoadPattern \<Rightarrow> bool \<Rightarrow> int \<Rightarrow> int \<Rightarrow> int
     \<Rightarrow> worker_state \<times> action list" where
  "Run_iteration conv config pattern done requests now1 now2 =
     (if done then (Cancelled, [])
      else if MaxRequests config > 0 \<and> requests \<ge> MaxRequests config then (ReachedRequestCap, [])
      else
        let delay = calculateDelay conv config pattern now1 now2
        in (Running,
            (if delay > 0 then [Sleep delay] else []) @
            [ExecuteRequest] @
            (if Delay config > 0 then [Sleep (Delay config)] else [])))"

text \<open>The configuration of the example: steady, 30 s with 10 s of ramp-up and 5 s of ramp-down.\<close>

definition steady_30_10_5 :: LoadTestConfig where
  "steady_30_10_5 =
     \<lparr>Pattern = ''steady'', Duration = 30 * Second, RampUp = 10 * Second,
      RampDown = 5 * Second, Delay = 0, MaxRequests = 0\<rparr>"

text \<open>
  What the command line gives for \<^verbatim>\<open>-d 5s\<close> with every other flag at its default: the
  ramp-up (10 s) is longer than the run.
\<close>

definition steady_5_10_5 :: LoadTestConfig where
  "steady_5_10_5 =
     \<lparr>Pattern = ''steady'', Duration = 5 * Second, RampUp = 10 * Second,
      RampDown = 5 * Second, Delay = 0, MaxRequests = 0\<rparr>"

section \<open>Requests and responses (protocols)\<close>

record Response =
  StatusCode :: int
  Headers :: "string \<rightharpoonup> string"
  Body :: string
  ResponseTime :: Duration
  ContentLength :: int
  Error :: "string option"

section \<open>The metrics collector\<close>

type_synonym int64 = "64 word"

record ValidationResults =
  TotalValidations :: int64
  PassedValidations :: int64
  FailedValidations :: int64
  ValidationErrors :: "string \<rightharpoonup> int64"

record Collector =
  totalRequests :: int64
  successfulRequests :: int64
  failedRequests :: int64
  totalBytes :: int64
  latencies :: "Duration list"
  minLatency :: Duration
  maxLatency :: Duration
  totalLatency :: Duration
  statusCodes :: "int \<rightharpoonup> int64"
  errors :: "string \<rightharpoonup> int64"
  startTime :: "int option"
  endTime :: "int option"
  validationResults :: ValidationResults

text \<open>\<^verbatim>\<open>m[k]++\<close> on a Go map: a key that is absent counts from zero.\<close>

definition increment :: "('k \<rightharpoonup> int64) \<Rightarrow> 'k \<Rightarrow> ('k \<rightharpoonup> int64)" where
  "increment m k = m(k \<mapsto> (case m k of None \<Rightarrow> 0 | Some n \<Rightarrow> n) + 1)"

definition NewCollector :: Collector where
  "NewCollector =
     \<lparr>totalRequests = 0, successfulRequests = 0, failedRequests = 0, totalBytes = 0,
      latencies = [], minLatency = 0, maxLatency = 0, totalLatency = 0,
      statusCodes = Map.empty, errors = Map.empty, startTime = None, endTime = None,
      validationResults =
        \<lparr>TotalValidations = 0, PassedValidations = 0, FailedValidations = 0,
         ValidationErrors = Map.empty\<rparr>\<rparr>"

definition Start :: "int \<Rightarrow> Collector \<Rightarrow> Collector" where
  "Start now c = c\<lparr>startTime := Some now\<rparr>"

definition Stop :: "int \<Rightarrow> Collector \<Rightarrow> Collector" where
  "Stop now c = c\<lparr>endTime := Some now\<rparr>"

definition updateLatency :: "Collector \<Rightarrow> Duration \<Rightarrow> Collector" where
  "updateLatency c latency =
     (let c = c\<lparr>latencies := latencies c @ [latency]\<rparr>;
          c = c\<lparr>totalLatency := wrap64 (totalLatency c + latency)\<rparr>;
          c = (if minLatency c = 0 \<or> latency < minLatency c
               then c\<lparr>minLatency := latency\<rparr> else c)
      in if latency > maxLatency c then c\<lparr>maxLatency := latency\<rparr> else c)"

definition updateStatusCode :: "Collector \<Rightarrow> int \<Rightarrow> Collector" where
  "updateStatusCode c statusCode = c\<lparr>statusCodes := increment (statusCodes c) statusCode\<rparr>"

definition recordError :: "Collector \<Rightarrow> string option \<Rightarrow> Collector" where
  "recordError c err =
     (case err of
        None \<Rightarrow> c
      | Some text \<Rightarrow> c\<lparr>errors := increment (errors c) text\<rparr>)"

definition RecordResponse :: "Collector \<Rightarrow> Response \<Rightarrow> Collector" where
  "RecordResponse c resp =
     (let c = c\<lparr>totalRequests := totalRequests c + 1\<rparr>;
          c = c\<lparr>totalBytes := totalBytes c + word_of_int (ContentLength resp)\<rparr>;
          c = updateLatency c (ResponseTime resp);
          c = updateStatusCode c (StatusCode resp)
      in if Error resp \<noteq> None \<or> StatusCode resp \<ge> 400
         then recordError (c\<lparr>failedRequests := failedRequests c + 1\<rparr>) (Error resp)
         else c\<lparr>successfulRequests := successfulRequests c + 1\<rparr>)"

definition RecordValidation :: "Collector \<Rightarrow> bool \<Rightarrow> string \<Rightarrow> Collector" where
  "RecordValidation c passed errorType =
     (let v = validationResults c;
          v = v\<lparr>TotalValidations := TotalValidations v + 1\<rparr>;
          v = (if passed then v\<lparr>PassedValidations := PassedValidations v + 1\<rparr>
               else
                 let v = v\<lparr>FailedValidations := FailedValidations v + 1\<rparr>
                 in if errorType \<noteq> [] 
                    then v\<lparr>ValidationErrors := increment (ValidationErrors v) errorType\<rparr>
                    else v)
      in c\<lparr>validationResults := v\<rparr>)"

text \<open>
  The sort that \<^verbatim>\<open>calculateLatencyStats\<close> and \<^verbatim>\<open>utils.CalculatePercentile\<close> run on a
  copy of the sample: for every \<open>i\<close>, the loop over \<open>j\<close> from \<open>i + 1\<close> exchanges
  the elements at \<open>i\<close> and \<open>j\<close> when they are out of order.
\<close>

function sort_inner :: "nat \<Rightarrow> nat \<Rightarrow> Duration list \<Rightarrow> Duration list" where
  "sort_inner i j arr =
     (if j < length arr
      then sort_inner i (j + 1)
             (if arr ! i > arr ! j
              then arr[i := arr ! j, j := arr ! i] else arr)
      else arr)"
  by pat_completeness auto
termination
  by (relation "measure (\<lambda>(i, j, arr). length arr - j)") auto

declare sort_inner.simps [simp del]

lemma length_sort_inner [simp]: "length (sort_inner i j arr) = length arr"
  by (induction i j arr rule: sort_inner.induct) (subst sort_inner.simps, simp)

function sort_outer :: "nat \<Rightarrow> Duration list \<Rightarrow> Duration list" where
  "sort_outer i arr =
     (if i < length arr then sort_outer (i + 1) (sort_inner i (i + 1) arr) else arr)"
  by pat_completeness auto
termination
  by (relation "measure (\<lambda>(i, arr). length arr - i)") auto

declare sort_outer.simps [simp del]

definition simple_sort :: "Duration list \<Rightarrow> Duration list" where
  "simple_sort durations = sort_outer 0 durations"

text \<open>
  \<^verbatim>\<open>index := int(float64(len(sorted)-1) * percentile / 100)\<close>, with the clamp that
  follows it: the conversion of the length rounds, the product rounds, the quotient
  rounds, and \<^verbatim>\<open>int(f)\<close> truncates towards zero, with an implementation-dependent
  result \<open>conv\<close> outside of the range of the integers. The argument
  \<open>percentile\<close> is a finite \<^verbatim>\<open>float64\<close>. An index that is negative makes the slice
  access panic: the result of the two functions is then \<open>None\<close>.
\<close>

definition percentile_index :: "(float64 \<Rightarrow> int) \<Rightarrow> nat \<Rightarrow> real \<Rightarrow> int" where
  "percentile_index conv n percentile =
     (let index = toDuration conv
                    (float_over (float_mul (round64 (real_of_int (int n - 1))) percentile) 100)
      in if index \<ge> int n then int n - 1 else index)"

definition calculatePercentile ::
  "(float64 \<Rightarrow> int) \<Rightarrow> Duration list \<Rightarrow> real \<Rightarrow> Duration option" where
  "calculatePercentile conv sortedLatencies percentile =
     (if length sortedLatencies = 0 then Some 0
      else
        let index = percentile_index conv (length sortedLatencies) percentile
        in if index < 0 then None else Some (sortedLatencies ! nat index))"

text \<open>\<^verbatim>\<open>utils.CalculatePercentile\<close> sorts a copy of its argument first.\<close>

definition CalculatePercentile ::
  "(float64 \<Rightarrow> int) \<Rightarrow> Duration list \<Rightarrow> real \<Rightarrow> Duration option" where
  "CalculatePercentile conv durations percentile =
     (if length durations = 0 then Some 0
      else
        let arr = simple_sort durations;
            index = percentile_index conv (length arr) percentile
        in if index < 0 then None else Some (arr ! nat index))"

record LatencyStats =
  st_Min :: Duration
  st_Max :: Duration
  Mean :: Duration
  Median :: Duration
  P90 :: Duration
  P95 :: Duration
  P99 :: Duration
  P99_9 :: Duration

definition calculateLatencyStats :: "(float64 \<Rightarrow> int) \<Rightarrow> Collector \<Rightarrow> LatencyStats option" where
  "calculateLatencyStats conv c =
     (if length (latencies c) = 0
      then Some \<lparr>st_Min = 0, st_Max = 0, Mean = 0, Median = 0, P90 = 0, P95 = 0, P99 = 0,
                 P99_9 = 0\<rparr>
      else
        let sortedLatencies = simple_sort (latencies c)
        in case calculatePercentile conv sortedLatencies 50 of None \<Rightarrow> None | Some p50 \<Rightarrow>
           case calculatePercentile conv sortedLatencies 90 of None \<Rightarrow> None | Some p90 \<Rightarrow>
           case calculatePercentile conv sortedLatencies 95 of None \<Rightarrow> None | Some p95 \<Rightarrow>
           case calculatePercentile conv sortedLatencies 99 of None \<Rightarrow> None | Some p99 \<Rightarrow>
           case calculatePercentile conv sortedLatencies (round64 (999 / 10)) of None \<Rightarrow> None | Some p99_9 \<Rightarrow>
             Some \<lparr>st_Min = minLatency c, st_Max = maxLatency c,
                   Mean = go_quot (totalLatency c) (int (length (latencies c))),
                   Median = p50, P90 = p90, P95 = p95, P99 = p99, P99_9 = p99_9\<rparr>)"

text \<open>The sum of the counts of a distribution, over all of its buckets.\<close>

definition bucket_total :: "('k \<rightharpoonup> int64) \<Rightarrow> int64" where
  "bucket_total m = (\<Sum>k \<in> dom m. the (m k))"

text \<open>
  The invariant of the outer loop of the sort: the first \<open>i\<close> elements are in order
  and none of them is greater than an element further on.
\<close>

definition sorted_upto :: "nat \<Rightarrow> Duration list \<Rightarrow> bool" where
  "sorted_upto i xs \<longleftrightarrow>
     sorted (take i xs) \<and> (\<forall>x \<in> set (take i xs). \<forall>y \<in> set (drop i xs). x \<le> y)"

text \<open>The nearest-rank index of percentile \<open>p\<close> in a sample of \<open>n\<close> elements.\<close>

definition nearest_rank :: "nat \<Rightarrow> real \<Rightarrow> nat" where
  "nearest_rank n p = min (nat \<lfloor>real (n - 1) * p / 100\<rfloor>) (n - 1)"

text \<open>Sample responses and the sample of the unit test of \<^verbatim>\<open>CalculatePercentile\<close>.\<close>

definition ok200 :: Response where
  "ok200 = \<lparr>StatusCode = 200, Headers = Map.empty, Body = ''ok'', ResponseTime = 5 * Millisecond,
            ContentLength = 2, Error = None\<rparr>"

definition err500 :: Response where
  "err500 = \<lparr>StatusCode = 500, Headers = Map.empty, Body = [], ResponseTime = 7 * Millisecond,
            ContentLength = 0, Error = None\<rparr>"

definition sample5 :: "Duration list" where
  "sample5 = [100 * Millisecond, 200 * Millisecond, 300 * Millisecond, 400 * Millisecond,
              500 * Millisecond]"

definition boom :: Response where
  "boom = \<lparr>StatusCode = 0, Headers = Map.empty, Body = [], ResponseTime = 3 * Millisecond,
           ContentLength = 0, Error = Some ''connection refused''\<rparr>"

definition timed :: "Duration \<Rightarrow> Response" where
  "timed t = \<lparr>StatusCode = 200, Headers = Map.empty, Body = [], ResponseTime = t,
              ContentLength = 0, Error = None\<rparr>"

text \<open>
  What the running maximum and minimum of the collector are to the sample: the maximum
  bounds every latency; the minimum is 0 while the sample is empty and then a least
  element of the sample.
\<close>

definition max_bounds :: "Collector \<Rightarrow> bool" where
  "max_bounds c \<longleftrightarrow> (\<forall>x \<in> set (latencies c). x \<le> maxLatency c)"

definition min_bounds :: "Collector \<Rightarrow> bool" where
  "min_bounds c \<longleftrightarrow>
     (latencies c = [] \<and> minLatency c = 0) \<or>
     (minLatency c \<in> set (latencies c) \<and> (\<forall>x \<in> set (latencies c). minLatency c \<le> x))"

(*DEFS*)

section \<open>Properties of the rounding\<close>

text \<open>
  The rounding stays within one unit of the last place, is the identity on the numbers
  that a \<^verbatim>\<open>float64\<close> represents, and is monotone. \<open>round64_eqI\<close> evaluates it on a
  number whose binade is known.
\<close>

lemma round_half_even_bounds:
  "\<lfloor>y\<rfloor> \<le> round_half_even y \<and> round_half_even y \<le> \<lfloor>y\<rfloor> + 1"
  by (simp add: round_half_even_def Let_def)

lemma round_half_even_of_int [simp]: "round_half_even (of_int k) = k"
  by (simp add: round_half_even_def)

lemma round_half_even_ge:
  assumes "of_int k \<le> y" shows "k \<le> round_half_even y"
proof -
  have "k \<le> \<lfloor>y\<rfloor>" using assms by (simp add: le_floor_iff)
  then show ?thesis using round_half_even_bounds [of y] by linarith
qed

lemma round_half_even_le:
  assumes "y \<le> of_int k" shows "round_half_even y \<le> k"
proof (cases "\<lfloor>y\<rfloor> < k")
  case True
  then show ?thesis using round_half_even_bounds [of y] by linarith
next
  case False
  moreover have "\<lfloor>y\<rfloor> \<le> k" using assms by (simp add: floor_le_iff)
  ultimately have "\<lfloor>y\<rfloor> = k" by simp
  then have "y = of_int k" using assms of_int_floor_le [of y] by linarith
  then show ?thesis by simp
qed

lemma round_half_even_mono:
  assumes "a \<le> b" shows "round_half_even a \<le> round_half_even b"
proof (cases "\<lfloor>a\<rfloor> < \<lfloor>b\<rfloor>")
  case True
  then show ?thesis
    using round_half_even_bounds [of a] round_half_even_bounds [of b] by linarith
next
  case False
  moreover have "\<lfloor>a\<rfloor> \<le> \<lfloor>b\<rfloor>" using assms by (rule floor_mono)
  ultimately have eq: "\<lfloor>a\<rfloor> = \<lfloor>b\<rfloor>" by simp
  then show ?thesis
    using assms by (auto simp: round_half_even_def Let_def)
qed

lemma floor_log_bounds:
  assumes "x \<noteq> 0"
  shows "2 powi \<lfloor>log 2 \<bar>x\<bar>\<rfloor> \<le> \<bar>x\<bar>" and "\<bar>x\<bar> < 2 powi (\<lfloor>log 2 \<bar>x\<bar>\<rfloor> + 1)"
proof -
  have pos: "0 < \<bar>x\<bar>" using assms by simp
  define l where "l = \<lfloor>log 2 \<bar>x\<bar>\<rfloor>"
  have p1: "(2::real) powr real_of_int l = 2 powi l"
    by (rule powr_real_of_int') simp_all
  have p2: "(2::real) powr real_of_int (l + 1) = 2 powi (l + 1)"
    by (rule powr_real_of_int') simp_all
  have "\<lfloor>log 2 \<bar>x\<bar>\<rfloor> = l \<longleftrightarrow>
      2 powr real_of_int l \<le> \<bar>x\<bar> \<and> \<bar>x\<bar> < 2 powr real_of_int (l + 1)"
    using pos by (intro floor_log_eq_powr_iff) simp_all
  then have "2 powi l \<le> \<bar>x\<bar> \<and> \<bar>x\<bar> < 2 powi (l + 1)"
    unfolding p1 p2 by (simp add: l_def)
  then show "2 powi \<lfloor>log 2 \<bar>x\<bar>\<rfloor> \<le> \<bar>x\<bar>" and "\<bar>x\<bar> < 2 powi (\<lfloor>log 2 \<bar>x\<bar>\<rfloor> + 1)"
    by (simp_all add: l_def)
qed

lemma floor_log_eqI:
  assumes "2 powi e \<le> \<bar>x\<bar>" "\<bar>x\<bar> < 2 powi (e + 1)"
  shows "\<lfloor>log 2 \<bar>x\<bar>\<rfloor> = e"
proof -
  have "(0::real) < 2 powi e" by simp
  then have pos: "0 < \<bar>x\<bar>" using assms(1) by linarith
  have p1: "(2::real) powr real_of_int e = 2 powi e"
    by (rule powr_real_of_int') simp_all
  have p2: "(2::real) powr real_of_int (e + 1) = 2 powi (e + 1)"
    by (rule powr_real_of_int') simp_all
  have "2 powr real_of_int e \<le> \<bar>x\<bar> \<and> \<bar>x\<bar> < 2 powr real_of_int (e + 1)"
    unfolding p1 p2 using assms by simp
  moreover have "\<lfloor>log 2 \<bar>x\<bar>\<rfloor> = e \<longleftrightarrow>
      2 powr real_of_int e \<le> \<bar>x\<bar> \<and> \<bar>x\<bar> < 2 powr real_of_int (e + 1)"
    using pos by (intro floor_log_eq_powr_iff) simp_all
  ultimately show ?thesis by simp
qed

lemma exponent_eqI:
  "2 powi e \<le> \<bar>x\<bar> \<Longrightarrow> \<bar>x\<bar> < 2 powi (e + 1) \<Longrightarrow> - 1022 \<le> e \<Longrightarrow> exponent x = e"
  by (simp add: exponent_def floor_log_eqI)

lemma round64_eqI:
  assumes "2 powi e \<le> \<bar>x\<bar>" "\<bar>x\<bar> < 2 powi (e + 1)" "- 1022 \<le> e"
  shows "round64 x = of_int (round_half_even (x * 2 powi (52 - e))) * 2 powi (e - 52)"
proof -
  have "(0::real) < 2 powi e" by simp
  then have "0 < \<bar>x\<bar>" using assms(1) by linarith
  then have "x \<noteq> 0" by simp
  then show ?thesis
    using exponent_eqI [OF assms] by (simp add: round64_def)
qed


lemma two_powi_add: "(2::real) powi (a + b) = 2 powi a * 2 powi b"
  by (rule power_int_add) simp

lemma two_powi_nonneg: "0 \<le> k \<Longrightarrow> (2::real) powi k = of_int (2 ^ nat k)"
  by (simp add: power_int_def)

lemma two_powi_mono: "a \<le> b \<Longrightarrow> (2::real) powi a \<le> 2 powi b"
  by (rule power_int_increasing) simp_all

lemma two_powi_strict_mono: "a < b \<Longrightarrow> (2::real) powi a < 2 powi b"
  by (rule power_int_strict_increasing) simp_all

lemma two_powi_less_iff: "(2::real) powi a < 2 powi b \<longleftrightarrow> a < b"
proof
  assume l: "(2::real) powi a < 2 powi b"
  show "a < b"
  proof (rule ccontr)
    assume "\<not> a < b"
    then have "b \<le> a" by simp
    then have "(2::real) powi b \<le> 2 powi a" by (rule two_powi_mono)
    with l show False by simp
  qed
qed (rule two_powi_strict_mono)

lemma two_powi_53: "(2::real) powi 53 * 2 powi (e - 52) = 2 powi (e + 1)"
proof -
  have "(2::real) powi 53 * 2 powi (e - 52) = 2 powi (53 + (e - 52))"
    by (rule two_powi_add [symmetric])
  also have "53 + (e - 52) = e + 1" by simp
  finally show ?thesis .
qed

lemma two_powi_52: "(2::real) powi 52 * 2 powi (e - 52) = 2 powi e"
proof -
  have "(2::real) powi 52 * 2 powi (e - 52) = 2 powi (52 + (e - 52))"
    by (rule two_powi_add [symmetric])
  also have "52 + (e - 52) = e" by simp
  finally show ?thesis .
qed

lemma two_powi_scale: "(2::real) powi (e + d) * 2 powi (52 - e) = 2 powi (52 + d)"
proof -
  have "(2::real) powi (e + d) * 2 powi (52 - e) = 2 powi ((e + d) + (52 - e))"
    by (rule two_powi_add [symmetric])
  also have "(e + d) + (52 - e) = 52 + d" by simp
  finally show ?thesis .
qed

lemma exponent_ge: "- 1022 \<le> exponent x"
  by (simp add: exponent_def)

lemma exponent_upper: "x \<noteq> 0 \<Longrightarrow> \<bar>x\<bar> < 2 powi (exponent x + 1)"
proof -
  assume x: "x \<noteq> 0"
  have "\<bar>x\<bar> < 2 powi (\<lfloor>log 2 \<bar>x\<bar>\<rfloor> + 1)" using x by (rule floor_log_bounds)
  also have "\<dots> \<le> 2 powi (exponent x + 1)"
    by (rule two_powi_mono) (simp add: exponent_def)
  finally show ?thesis .
qed

lemma exponent_lower: "x \<noteq> 0 \<Longrightarrow> - 1022 < exponent x \<Longrightarrow> 2 powi exponent x \<le> \<bar>x\<bar>"
proof -
  assume x: "x \<noteq> 0" and "- 1022 < exponent x"
  then have "exponent x = \<lfloor>log 2 \<bar>x\<bar>\<rfloor>" by (simp add: exponent_def max_def split: if_splits)
  then show ?thesis using floor_log_bounds(1) [OF x] by simp
qed

lemma exponent_mono:
  assumes "0 < x" "x \<le> y" shows "exponent x \<le> exponent y"
proof -
  have "log 2 \<bar>x\<bar> \<le> log 2 \<bar>y\<bar>" using assms by simp
  then have "\<lfloor>log 2 \<bar>x\<bar>\<rfloor> \<le> \<lfloor>log 2 \<bar>y\<bar>\<rfloor>" by (rule floor_mono)
  then show ?thesis unfolding exponent_def by linarith
qed

lemma round64_nonneg: "0 \<le> x \<Longrightarrow> 0 \<le> round64 x"
proof -
  assume "0 \<le> x"
  then have "of_int 0 \<le> x * 2 powi (52 - exponent x)" by simp
  then have "0 \<le> round_half_even (x * 2 powi (52 - exponent x))"
    by (rule round_half_even_ge)
  then show ?thesis by (simp add: round64_def Let_def)
qed

lemma round64_upper:
  assumes "0 < x" shows "round64 x \<le> 2 powi (exponent x + 1)"
proof -
  let ?e = "exponent x"
  have "x < 2 powi (?e + 1)" using exponent_upper [of x] assms by simp
  then have "x * 2 powi (52 - ?e) < 2 powi (?e + 1) * 2 powi (52 - ?e)"
    by (simp add: mult_strict_right_mono)
  also have "\<dots> = 2 powi (52 + 1)" by (rule two_powi_scale)
  finally have "x * 2 powi (52 - ?e) \<le> of_int (2 ^ 53)" by simp
  then have "round_half_even (x * 2 powi (52 - ?e)) \<le> 2 ^ 53"
    by (rule round_half_even_le)
  then have "real_of_int (round_half_even (x * 2 powi (52 - ?e))) \<le> 2 powi 53"
    by (simp add: of_int_le_iff [symmetric] del: of_int_le_iff)  
  then have "round64 x \<le> 2 powi 53 * 2 powi (?e - 52)"
    using assms by (simp add: round64_def Let_def mult_right_mono)
  also have "\<dots> = 2 powi (?e + 1)" by (rule two_powi_53)
  finally show ?thesis .
qed

lemma round64_lower:
  assumes "0 < x" "- 1022 < exponent x" shows "2 powi exponent x \<le> round64 x"
proof -
  let ?e = "exponent x"
  have "2 powi ?e \<le> x" using exponent_lower [of x] assms by simp
  then have "2 powi ?e * 2 powi (52 - ?e) \<le> x * 2 powi (52 - ?e)"
    by (simp add: mult_right_mono)
  moreover have "2 powi ?e * 2 powi (52 - ?e) = (2::real) powi 52"
    using two_powi_scale [of ?e 0] by simp
  ultimately have "of_int (2 ^ 52) \<le> x * 2 powi (52 - ?e)" by simp
  then have "2 ^ 52 \<le> round_half_even (x * 2 powi (52 - ?e))"
    by (rule round_half_even_ge)
  then have "2 powi 52 \<le> real_of_int (round_half_even (x * 2 powi (52 - ?e)))"
    by (simp add: of_int_le_iff [symmetric] del: of_int_le_iff)
  then have "2 powi 52 * 2 powi (?e - 52) \<le> round64 x"
    using assms by (simp add: round64_def Let_def mult_right_mono)
  moreover have "2 powi 52 * 2 powi (?e - 52) = (2::real) powi ?e"
    by (rule two_powi_52)
  ultimately show ?thesis by simp
qed

lemma round64_mono:
  assumes "0 \<le> x" "x \<le> y" shows "round64 x \<le> round64 y"
proof (cases "x = 0")
  case True
  then show ?thesis using assms round64_nonneg [of y] by (simp add: round64_def)
next
  case False
  then have x: "0 < x" and y: "0 < y" using assms by simp_all
  have le: "exponent x \<le> exponent y" using x assms(2) by (rule exponent_mono)
  show ?thesis
  proof (cases "exponent x = exponent y")
    case True
    have "x * 2 powi (52 - exponent y) \<le> y * 2 powi (52 - exponent y)"
      using assms(2) by (simp add: mult_right_mono)
    then have "round_half_even (x * 2 powi (52 - exponent y))
        \<le> round_half_even (y * 2 powi (52 - exponent y))"
      by (rule round_half_even_mono)
    then show ?thesis
      using x y True by (simp add: round64_def Let_def mult_right_mono)
  next
    case False
    then have lt: "exponent x < exponent y" using le by simp
    then have "- 1022 < exponent y" using exponent_ge [of x] by linarith
    then have "2 powi exponent y \<le> round64 y" using y by (intro round64_lower)
    moreover have "round64 x \<le> 2 powi (exponent x + 1)" using x by (rule round64_upper)
    moreover have "(2::real) powi (exponent x + 1) \<le> 2 powi exponent y"
      using lt by (intro two_powi_mono) simp
    ultimately show ?thesis by linarith
  qed
qed

lemma round64_exact:
  assumes j: "j \<noteq> 0" "\<bar>j\<bar> < 2 ^ 53" and s: "- 1074 \<le> s"
  shows "round64 (of_int j * 2 powi s) = of_int j * 2 powi s"
proof -
  let ?x = "real_of_int j * 2 powi s"
  let ?e = "exponent ?x"
  have x: "?x \<noteq> 0" using j by simp
  have k: "0 \<le> s + 52 - ?e"
  proof (cases "- 1022 < ?e")
    case True
    then have "2 powi ?e \<le> \<bar>?x\<bar>" using x by (intro exponent_lower)
    also have "\<bar>?x\<bar> = real_of_int \<bar>j\<bar> * 2 powi s" by (simp add: abs_mult)
    also have "\<dots> < real_of_int (2 ^ 53) * 2 powi s"
    proof (rule mult_strict_right_mono)
      show "real_of_int \<bar>j\<bar> < real_of_int (2 ^ 53)"
        using j(2) by (simp only: of_int_less_iff)
      show "(0::real) < 2 powi s" by simp
    qed
    also have "\<dots> = 2 powi (53 + s)" by (simp add: two_powi_add)
    finally have "?e < 53 + s" by (simp only: two_powi_less_iff)
    then show ?thesis by simp
  next
    case False
    then have "?e = - 1022" using exponent_ge [of ?x] by linarith
    then show ?thesis using s by simp
  qed
  have "?x * 2 powi (52 - ?e) = real_of_int j * (2 powi s * 2 powi (52 - ?e))" by simp
  also have "2 powi s * 2 powi (52 - ?e) = (2::real) powi (s + 52 - ?e)"
    by (simp add: two_powi_add [symmetric] algebra_simps)
  also have "\<dots> = of_int (2 ^ nat (s + 52 - ?e))" using k by (rule two_powi_nonneg)
  finally have "?x * 2 powi (52 - ?e) = of_int (j * 2 ^ nat (s + 52 - ?e))" by simp
  then have "real_of_int (round_half_even (?x * 2 powi (52 - ?e))) = ?x * 2 powi (52 - ?e)"
    by (simp only: round_half_even_of_int)
  then have "round64 ?x = ?x * 2 powi (52 - ?e) * 2 powi (?e - 52)"
    using x by (simp add: round64_def Let_def)
  also have "\<dots> = ?x * (2 powi (52 - ?e) * 2 powi (?e - 52))" by simp
  also have "2 powi (52 - ?e) * 2 powi (?e - 52) = (2::real) powi 0"
    by (simp only: two_powi_add [symmetric]) simp
  finally show ?thesis by simp
qed

lemma round64_of_int:
  assumes "\<bar>j\<bar> < 2 ^ 53" shows "round64 (of_int j) = of_int j"
proof (cases "j = 0")
  case True
  then show ?thesis by (simp add: round64_def)
next
  case False
  then show ?thesis using round64_exact [of j 0] assms by simp
qed

lemma round64_0 [simp]: "round64 0 = 0"
  by (simp add: round64_def)

lemma round64_1 [simp]: "round64 1 = 1"
  using round64_of_int [of 1] by simp

lemma round64_numeral [simp]: "(numeral k :: int) < 2 ^ 53 \<Longrightarrow> round64 (numeral k) = numeral k"
  using round64_of_int [of "numeral k"] by simp

lemma float64_of_finite:
  "0 \<le> round64 r \<Longrightarrow> round64 r \<le> 2 ^ 70 \<Longrightarrow> float64_of r = Finite (round64 r)"
proof -
  assume a: "0 \<le> round64 r" "round64 r \<le> 2 ^ 70"
  have "(2::real) ^ 70 < 2 ^ 1024" by (rule power_strict_increasing) simp_all
  then show ?thesis using a by (simp add: float64_of_def Let_def)
qed

lemma round64_div100:
  assumes "0 \<le> x" "x < 2 ^ 52"
  shows "real_of_int (x div 100) \<le> round64 (real_of_int x / 100)"
    and "round64 (real_of_int x / 100) < real_of_int (x div 100) + 1"
proof -
  define q where "q = x div 100"
  have q0: "0 \<le> q" using assms(1) by (simp add: q_def pos_imp_zdiv_nonneg_iff)
  have ql: "100 * q \<le> x" and qu: "x \<le> 100 * q + 99" unfolding q_def by arith+
  have qb: "128 * q + 127 < 2 ^ 53" using ql assms(2) by simp
  have lo: "real_of_int q \<le> real_of_int x / 100"
  proof -
    have "real_of_int (100 * q) \<le> real_of_int x" using ql by (simp only: of_int_le_iff)
    then show ?thesis by simp
  qed
  have hi: "real_of_int x / 100 \<le> real_of_int (128 * q + 127) * 2 powi (- 7)"
  proof -
    have "real_of_int x \<le> real_of_int (100 * q + 99)" using qu by (simp only: of_int_le_iff)
    then show ?thesis by (simp add: power_int_minus field_simps)
  qed
  have "round64 (real_of_int q) = real_of_int q"
    using q0 qb by (intro round64_of_int) simp
  moreover have "round64 (real_of_int q) \<le> round64 (real_of_int x / 100)"
    using q0 lo by (intro round64_mono) simp_all
  ultimately show "real_of_int (x div 100) \<le> round64 (real_of_int x / 100)"
    by (simp add: q_def)
  have "round64 (real_of_int (128 * q + 127) * 2 powi (- 7))
      = real_of_int (128 * q + 127) * 2 powi (- 7)"
    using q0 qb by (intro round64_exact) simp_all
  moreover have "round64 (real_of_int x / 100)
      \<le> round64 (real_of_int (128 * q + 127) * 2 powi (- 7))"
    using assms(1) hi by (intro round64_mono) simp_all
  moreover have "real_of_int (128 * q + 127) * 2 powi (- 7) < real_of_int q + 1"
    by (simp add: power_int_minus field_simps)
  ultimately show "round64 (real_of_int x / 100) < real_of_int (x div 100) + 1"
    by (simp add: q_def)
qed

lemma floor_between: "real_of_int q \<le> r \<Longrightarrow> r < real_of_int q + 1 \<Longrightarrow> \<lfloor>r\<rfloor> = q"
  by (simp add: floor_eq_iff)


lemma round64_two_power: "round64 (2 ^ n) = 2 ^ n"
  using round64_exact [of 1 "int n"] by simp

lemma round64_100_two_power: "round64 (100 * 2 ^ 62) = 100 * 2 ^ 62"
  using round64_exact [of 25 64] by simp


lemma round64_999: "round64 (999 / 10) = 7029837543348634 / 2 ^ 46"
  by (subst round64_eqI [of 6]) (simp_all add: round_half_even_def)


lemma round64_half [simp]: "round64 (1 / 2) = 1 / 2"
  by (subst round64_eqI [of "- 1"]) (simp_all add: round_half_even_def)

section \<open>Properties of the pacing\<close>

lemmas pacing_defs = currentIntensity_def calculateLoadPattern_def calculateSteadyPattern_def
  steady_30_10_5_def calculateIntensity_def Second_def Millisecond_def

text \<open>
  The phase that the loop finds has the elapsed time before its end. In a phase of
  negative duration the time spent in the phase is therefore negative and not zero: the
  progress that \<^verbatim>\<open>calculateIntensity\<close> computes for \<^verbatim>\<open>calculateDelay\<close> is never a
  negative zero.
\<close>

lemma findPhase_window:
  "findPhase elapsed start ps = Some (phase, phaseStart) \<Longrightarrow>
   elapsed - phaseStart < ph_Duration phase"
  by (induction ps arbitrary: start) (auto split: if_splits)

text \<open>
  Claim C1: the code evaluated on the configuration of the claim, steady with 30 s, a
  ramp-up of 10 s and a ramp-down of 5 s. The third phase is the ramp-down, 5 s long.
  In its middle, 27.5 s into the run and 2.5 s into the phase, \<^verbatim>\<open>calculateIntensity\<close>
  returns the fixed intensity of the phase, 0, where the claim has 0.5; in the middle of
  the ramp-up, at 5 s, it returns 0 as well. At 30 s no phase is current and no intensity
  is computed. The same call of \<^verbatim>\<open>calculateIntensity\<close> under the pattern \<^verbatim>\<open>ramp-up\<close>
  returns the linear progress, 0.5.
\<close>

theorem steady_ramp_is_flat:
  "Phases (calculateLoadPattern steady_30_10_5) ! 2
     = \<lparr>ph_Duration = 5 * Second, ph_Intensity = 0\<rparr> \<and>
   calculateIntensity steady_30_10_5 (Phases (calculateLoadPattern steady_30_10_5) ! 2)
     (2500 * Millisecond) = 0 \<and>
   currentIntensity steady_30_10_5 (calculateLoadPattern steady_30_10_5) (27500 * Millisecond)
     = Some 0 \<and>
   currentIntensity steady_30_10_5 (calculateLoadPattern steady_30_10_5) (5 * Second)
     = Some 0 \<and>
   currentIntensity steady_30_10_5 (calculateLoadPattern steady_30_10_5) (30 * Second)
     = None \<and>
   calculateIntensity (steady_30_10_5\<lparr>Pattern := ''ramp-up''\<rparr>)
     (Phases (calculateLoadPattern steady_30_10_5) ! 2) (2500 * Millisecond) = 1 / 2"
  by (simp add: pacing_defs)

text \<open>
  Claim C2: the code evaluated on a pass through the worker's loop in which the intensity
  is 0. With a ramp-up longer than the run, the elapsed time that \<^verbatim>\<open>calculateDelay\<close>
  computes falls into the first phase of the steady pattern, whose intensity is 0. The
  base interval is divided by zero and the quotient is the positive infinity. The pass
  issues its request all the same: at once where the conversion of the infinity gives
  the smallest \<^verbatim>\<open>int64\<close>, and after a sleep of \<open>2 ^ 63 - 1\<close> ns where the conversion
  saturates.
\<close>

theorem zero_intensity_divides_and_requests:
  "currentIntensity steady_5_10_5 (calculateLoadPattern steady_5_10_5)
      (time_Since 1000 (0 + (- Duration steady_5_10_5))) = Some 0 \<and>
   float_div (round64 (real_of_int (100 * Millisecond))) 0 = PosInf \<and>
   Run_iteration conv_amd64 steady_5_10_5 (calculateLoadPattern steady_5_10_5) False 0 0 1000
     = (Running, [ExecuteRequest]) \<and>
   Run_iteration conv_arm64 steady_5_10_5 (calculateLoadPattern steady_5_10_5) False 0 0 1000
     = (Running, [Sleep (2 ^ 63 - 1), ExecuteRequest])"
  by (simp add: pacing_defs steady_5_10_5_def time_Since_def float_div_def Run_iteration_def
      calculateDelay_def delayAt_def toDuration_def conv_amd64_def conv_arm64_def)

text \<open>
  The elapsed time of \<^verbatim>\<open>calculateDelay\<close> is the configured duration plus the gap between
  its two clock readings: a shift of both readings, that is the time at which the run
  started, does not enter the result.
\<close>

lemma calculateDelay_shift:
  "calculateDelay conv config pattern (now1 + s) (now2 + s)
     = calculateDelay conv config pattern now1 now2"
proof -
  have "now2 + s - (now1 + s + - Duration config) = now2 - (now1 + - Duration config)"
    by arith
  then show ?thesis
    by (simp only: calculateDelay_def time_Since_def)
qed

text \<open>
  Claim C3: the code evaluated at two calls with the same pattern, the same configuration
  and the same first clock reading. The second reading comes 1 microsecond later in one
  call and 6 s later in the other: the first call finds a current phase and an intensity,
  the second finds none, and the delays differ.
\<close>

theorem clock_gap_changes_pacing:
  "currentIntensity steady_5_10_5 (calculateLoadPattern steady_5_10_5)
      (time_Since (1000 + 1000) (1000 + (- Duration steady_5_10_5))) = Some 0 \<and>
   currentIntensity steady_5_10_5 (calculateLoadPattern steady_5_10_5)
      (time_Since (1000 + 6 * Second) (1000 + (- Duration steady_5_10_5))) = None \<and>
   calculateDelay conv_amd64 steady_5_10_5 (calculateLoadPattern steady_5_10_5)
      1000 (1000 + 1000) = - (2 ^ 63) \<and>
   calculateDelay conv_amd64 steady_5_10_5 (calculateLoadPattern steady_5_10_5)
      1000 (1000 + 6 * Second) = 0"
  by (simp add: pacing_defs steady_5_10_5_def time_Since_def float_div_def
      calculateDelay_def delayAt_def toDuration_def conv_amd64_def)

text \<open>
  With a clock that does not run backwards, a non-negative duration, a non-negative
  ramp-down and a ramp-up no longer than the run, no phase of any of the four patterns is
  ever current: \<^verbatim>\<open>calculateDelay\<close> returns zero.
\<close>

lemma go_quot_nonneg: "0 \<le> a \<Longrightarrow> 0 < b \<Longrightarrow> go_quot a b = a div b"
  by (cases "a = 0") (simp_all add: go_quot_def)

lemma calculateDelay_never_paces:
  assumes "0 \<le> Duration config" and "0 \<le> RampDown config"
    and "RampUp config \<le> Duration config" and "now1 \<le> now2"
  shows "calculateDelay conv config (calculateLoadPattern config) now1 now2 = 0"
proof -
  define elapsed where "elapsed = time_Since now2 (now1 + (- Duration config))"
  have e: "Duration config \<le> elapsed"
    using assms(4) by (simp add: elapsed_def time_Since_def)
  have q4: "go_quot (Duration config) 4 = Duration config div 4"
    and q2: "go_quot (Duration config) 2 = Duration config div 2"
    and q3: "go_quot (Duration config) 3 = Duration config div 3"
    using assms(1) by (simp_all add: go_quot_nonneg)
  have d3: "3 * (Duration config div 3) \<le> elapsed"
    and d4: "2 * (Duration config div 4) + Duration config div 2 \<le> elapsed"
    and d5: "2 * (Duration config div 4) \<le> elapsed"
    using e assms(1) by arith+
  have "findPhase elapsed 0 (Phases (calculateLoadPattern config)) = None"
    using e assms(1,2,3) d3 d4 d5
    by (simp add: calculateLoadPattern_def calculateSpikePattern_def calculateSteadyPattern_def
        calculateRampUpPattern_def calculateStressPattern_def q4 q3 q2 Let_def)
  then show ?thesis
    by (simp add: calculateDelay_def delayAt_def elapsed_def)
qed

section \<open>Properties of the collector\<close>

lemma RecordResponse_total: "totalRequests (RecordResponse c resp) = totalRequests c + 1"
  by (simp add: RecordResponse_def updateLatency_def updateStatusCode_def recordError_def Let_def
      split: option.splits)

lemma RecordResponse_failed:
  "failedRequests (RecordResponse c resp)
     = failedRequests c + (if Error resp \<noteq> None \<or> StatusCode resp \<ge> 400 then 1 else 0)"
  by (simp add: RecordResponse_def updateLatency_def updateStatusCode_def recordError_def Let_def
      split: option.splits)

lemma RecordResponse_successful:
  "successfulRequests (RecordResponse c resp)
     = successfulRequests c + (if Error resp \<noteq> None \<or> StatusCode resp \<ge> 400 then 0 else 1)"
  by (simp add: RecordResponse_def updateLatency_def updateStatusCode_def recordError_def Let_def
      split: option.splits)

lemma foldl_total:
  "totalRequests (foldl RecordResponse c rs) = totalRequests c + of_nat (length rs)"
  by (induction rs arbitrary: c) (simp_all add: RecordResponse_total)

lemma foldl_failed:
  "failedRequests (foldl RecordResponse c rs)
     = failedRequests c
       + of_nat (length (filter (\<lambda>r. Error r \<noteq> None \<or> StatusCode r \<ge> 400) rs))"
  by (induction rs arbitrary: c) (simp_all add: RecordResponse_failed)

lemma foldl_successful:
  "successfulRequests (foldl RecordResponse c rs)
     = successfulRequests c
       + of_nat (length (filter (\<lambda>r. \<not> (Error r \<noteq> None \<or> StatusCode r \<ge> 400)) rs))"
  by (induction rs arbitrary: c) (simp_all add: RecordResponse_successful)

lemma length_filter_split:
  "length (filter P rs) + length (filter (\<lambda>r. \<not> P r) rs) = length rs"
  by (induction rs) simp_all

lemma sint_of_nat_small:
  assumes "n < 2 ^ 63" shows "sint (of_nat n :: 64 word) = int n"
proof -
  have "signed_take_bit 63 (int n) = int n"
    using assms by (intro signed_take_bit_int_eq_self) auto
  then show ?thesis
    by (simp add: signed_of_nat)
qed

text \<open>
  Claim C4. A call of \<^verbatim>\<open>RecordResponse\<close> adds one to the total, and one to exactly one of
  the failure counter (when the response carries an error or a status of 400 or more) and
  the success counter. After any sequence of calls on a new collector the total is the sum
  of successes and failures and is the number of calls; below \<open>2 ^ 63\<close> calls, where
  the counters have not wrapped, this holds of their signed values.
\<close>

theorem total_is_success_plus_failure:
  "totalRequests (RecordResponse c resp) = totalRequests c + 1 \<and>
   failedRequests (RecordResponse c resp)
     = failedRequests c + (if Error resp \<noteq> None \<or> StatusCode resp \<ge> 400 then 1 else 0) \<and>
   successfulRequests (RecordResponse c resp)
     = successfulRequests c + (if Error resp \<noteq> None \<or> StatusCode resp \<ge> 400 then 0 else 1) \<and>
   totalRequests (foldl RecordResponse NewCollector rs)
     = successfulRequests (foldl RecordResponse NewCollector rs)
       + failedRequests (foldl RecordResponse NewCollector rs) \<and>
   totalRequests (foldl RecordResponse NewCollector rs) = of_nat (length rs) \<and>
   (length rs < 2 ^ 63 \<longrightarrow>
      sint (totalRequests (foldl RecordResponse NewCollector rs)) = int (length rs) \<and>
      sint (successfulRequests (foldl RecordResponse NewCollector rs))
        + sint (failedRequests (foldl RecordResponse NewCollector rs)) = int (length rs))"
proof -
  let ?P = "\<lambda>r. Error r \<noteq> None \<or> StatusCode r \<ge> 400"
  let ?end = "foldl RecordResponse NewCollector rs"
  have t: "totalRequests ?end = of_nat (length rs)"
    by (simp add: foldl_total NewCollector_def)
  have f: "failedRequests ?end = of_nat (length (filter ?P rs))"
    by (simp add: foldl_failed NewCollector_def)
  have s: "successfulRequests ?end = of_nat (length (filter (\<lambda>r. \<not> ?P r) rs))"
    by (simp add: foldl_successful NewCollector_def)
  have sum: "totalRequests ?end = successfulRequests ?end + failedRequests ?end"
    unfolding t f s of_nat_add [symmetric]
    using length_filter_split [of ?P rs] by (simp add: add.commute)
  have small: "sint (totalRequests ?end) = int (length rs) \<and>
      sint (successfulRequests ?end) + sint (failedRequests ?end) = int (length rs)"
    if "length rs < 2 ^ 63"
  proof -
    have "length (filter ?P rs) < 2 ^ 63" "length (filter (\<lambda>r. \<not> ?P r) rs) < 2 ^ 63"
      using that length_filter_le [of ?P rs] length_filter_le [of "\<lambda>r. \<not> ?P r" rs]
      by linarith+
    then show ?thesis
      unfolding t f s using that length_filter_split [of ?P rs]
      by (simp only: sint_of_nat_small) linarith
  qed
  show ?thesis
    using RecordResponse_total RecordResponse_failed RecordResponse_successful t sum small
    by blast
qed

theorem total_is_success_plus_failure_witness:
  "sint (totalRequests (foldl RecordResponse NewCollector [ok200, err500, ok200])) = 3 \<and>
   successfulRequests (foldl RecordResponse NewCollector [ok200, err500, ok200]) = 2 \<and>
   failedRequests (foldl RecordResponse NewCollector [ok200, err500, ok200]) = 1"
  using total_is_success_plus_failure [of NewCollector ok200 "[ok200, err500, ok200]"]
  by (simp add: RecordResponse_failed RecordResponse_successful NewCollector_def ok200_def err500_def)

lemma dom_increment: "dom (increment m k) = insert k (dom m)"
  by (simp add: increment_def)

lemma bucket_total_increment:
  assumes "finite (dom m)"
  shows "bucket_total (increment m k) = bucket_total m + 1"
proof (cases "m k")
  case None
  then have k: "k \<notin> dom m" by (simp add: domIff)
  have "(\<Sum>x \<in> dom m. the (increment m k x)) = (\<Sum>x \<in> dom m. the (m x))"
    using k by (intro sum.cong) (auto simp: increment_def)
  then show ?thesis
    using assms k None by (simp add: bucket_total_def dom_increment) (simp add: increment_def)
next
  case (Some n)
  then have k: "k \<in> dom m" by (simp add: domIff)
  then have d: "insert k (dom m) = dom m" by auto
  have rest: "(\<Sum>x \<in> dom m - {k}. the (increment m k x)) = (\<Sum>x \<in> dom m - {k}. the (m x))"
    by (intro sum.cong) (auto simp: increment_def)
  have "bucket_total (increment m k)
          = the (increment m k k) + (\<Sum>x \<in> dom m - {k}. the (increment m k x))"
    unfolding bucket_total_def dom_increment d using assms k by (rule sum.remove)
  also have "\<dots> = (n + 1) + (\<Sum>x \<in> dom m - {k}. the (m x))"
    using Some rest by (simp add: increment_def)
  also have "\<dots> = (the (m k) + (\<Sum>x \<in> dom m - {k}. the (m x))) + 1"
    using Some by simp
  also have "the (m k) + (\<Sum>x \<in> dom m - {k}. the (m x)) = bucket_total m"
    unfolding bucket_total_def using assms k by (rule sum.remove [symmetric])
  finally show ?thesis .
qed

lemma errors_RecordResponse:
  "errors (RecordResponse c resp)
     = (case Error resp of None \<Rightarrow> errors c | Some text \<Rightarrow> increment (errors c) text)"
  by (simp add: RecordResponse_def updateLatency_def updateStatusCode_def recordError_def Let_def
      split: option.splits)

lemma finite_errors_foldl:
  "finite (dom (errors c)) \<Longrightarrow> finite (dom (errors (foldl RecordResponse c rs)))"
  by (induction rs arbitrary: c)
    (auto simp: errors_RecordResponse dom_increment split: option.splits)

lemma bucket_total_foldl:
  "finite (dom (errors c)) \<Longrightarrow>
   bucket_total (errors (foldl RecordResponse c rs))
     = bucket_total (errors c) + of_nat (length (filter (\<lambda>r. Error r \<noteq> None) rs))"
proof (induction rs arbitrary: c)
  case Nil
  show ?case by simp
next
  case (Cons r rs)
  have fin: "finite (dom (errors (RecordResponse c r)))"
    using Cons.prems by (auto simp: errors_RecordResponse dom_increment split: option.splits)
  have step: "bucket_total (errors (RecordResponse c r))
                = bucket_total (errors c) + (if Error r \<noteq> None then 1 else 0)"
    using Cons.prems by (auto simp: errors_RecordResponse bucket_total_increment)
  show ?case
    using Cons.IH [OF fin] step by simp
qed

text \<open>
  Claim C9, as the code has it. A call of \<^verbatim>\<open>RecordResponse\<close> with a response that carries
  an error or a status of 400 or more adds one to the failure counter. Only a response
  that carries an error adds to a bucket of the error distribution, the bucket of the
  text of its error; \<^verbatim>\<open>recordError\<close> returns at once for a nil error and there is no
  default key. After any sequence of calls on a new collector the buckets add up to the
  number of responses with an error, and the failure counter exceeds that sum by the
  number of responses that failed by their status alone.
\<close>

theorem error_buckets_count_errors:
  "failedRequests (RecordResponse c resp)
     = failedRequests c + (if Error resp \<noteq> None \<or> StatusCode resp \<ge> 400 then 1 else 0) \<and>
   errors (RecordResponse c resp)
     = (case Error resp of
          None \<Rightarrow> errors c
        | Some text \<Rightarrow>
            (errors c)(text \<mapsto> (case errors c text of None \<Rightarrow> 0 | Some n \<Rightarrow> n) + 1)) \<and>
   bucket_total (errors (foldl RecordResponse NewCollector rs))
     = of_nat (length (filter (\<lambda>r. Error r \<noteq> None) rs)) \<and>
   failedRequests (foldl RecordResponse NewCollector rs)
     = bucket_total (errors (foldl RecordResponse NewCollector rs))
       + of_nat (length (filter (\<lambda>r. Error r = None \<and> StatusCode r \<ge> 400) rs))"
proof -
  let ?end = "foldl RecordResponse NewCollector rs"
  have b: "bucket_total (errors ?end) = of_nat (length (filter (\<lambda>r. Error r \<noteq> None) rs))"
    using bucket_total_foldl [of NewCollector rs]
    by (simp add: NewCollector_def bucket_total_def)
  have split: "length (filter (\<lambda>r. Error r \<noteq> None \<or> StatusCode r \<ge> 400) rs)
      = length (filter (\<lambda>r. Error r \<noteq> None) rs)
        + length (filter (\<lambda>r. Error r = None \<and> StatusCode r \<ge> 400) rs)"
    by (induction rs) auto
  have f: "failedRequests ?end
      = of_nat (length (filter (\<lambda>r. Error r \<noteq> None \<or> StatusCode r \<ge> 400) rs))"
    by (simp add: foldl_failed NewCollector_def)
  have "failedRequests ?end = bucket_total (errors ?end)
       + of_nat (length (filter (\<lambda>r. Error r = None \<and> StatusCode r \<ge> 400) rs))"
    unfolding f b split by simp
  moreover have "errors (RecordResponse c resp)
     = (case Error resp of
          None \<Rightarrow> errors c
        | Some text \<Rightarrow>
            (errors c)(text \<mapsto> (case errors c text of None \<Rightarrow> 0 | Some n \<Rightarrow> n) + 1))"
    by (simp add: errors_RecordResponse increment_def split: option.splits)
  ultimately show ?thesis
    using b RecordResponse_failed [of c resp] by simp
qed

theorem error_buckets_count_errors_witness:
  "errors (RecordResponse NewCollector boom) ''connection refused'' = Some 1 \<and>
   bucket_total (errors (foldl RecordResponse NewCollector [boom, err500, boom])) = 2 \<and>
   failedRequests (foldl RecordResponse NewCollector [boom, err500, boom]) = 3"
  using error_buckets_count_errors [of NewCollector boom "[boom, err500, boom]"]
  by (simp add: boom_def err500_def NewCollector_def)

text \<open>
  Claim C9 as stated fails for a response with status 500 and no error: the failure is
  counted and no bucket is, neither under \<open>unknown\<close> nor under any other key.
\<close>

theorem status_failure_without_bucket_counterexample:
  "failedRequests (RecordResponse NewCollector err500) = 1 \<and>
   errors (RecordResponse NewCollector err500) ''unknown'' = None \<and>
   bucket_total (errors (RecordResponse NewCollector err500)) = 0"
  by (simp add: RecordResponse_failed errors_RecordResponse err500_def NewCollector_def
      bucket_total_def)

subsection \<open>The sort\<close>

lemma mset_exchange:
  "i < length xs \<Longrightarrow> j < length xs \<Longrightarrow> mset (xs[i := xs ! j, j := xs ! i]) = mset xs"
  by (simp add: mset_swap)

lemma mset_sort_inner:
  "i < length xs \<Longrightarrow> mset (sort_inner i j xs) = mset xs"
proof (induction i j xs rule: sort_inner.induct)
  case (1 i j xs)
  show ?case
  proof (cases "j < length xs")
    case True
    let ?ys = "if xs ! i > xs ! j then xs[i := xs ! j, j := xs ! i] else xs"
    have "mset (sort_inner i (j + 1) ?ys) = mset ?ys"
      using "1.IH" [OF True] "1.prems" by simp
    also have "mset ?ys = mset xs"
      using True "1.prems" by (simp add: mset_exchange)
    finally show ?thesis
      using True by (subst sort_inner.simps) simp
  next
    case False
    then show ?thesis by (subst sort_inner.simps) simp
  qed
qed

lemma take_sort_inner:
  "i < j \<Longrightarrow> take i (sort_inner i j xs) = take i xs"
proof (induction i j xs rule: sort_inner.induct)
  case (1 i j xs)
  show ?case
  proof (cases "j < length xs")
    case True
    let ?ys = "if xs ! i > xs ! j then xs[i := xs ! j, j := xs ! i] else xs"
    have "take i (sort_inner i (j + 1) ?ys) = take i ?ys"
      using "1.IH" [OF True] "1.prems" by simp
    also have "take i ?ys = take i xs"
      using "1.prems" by simp
    finally show ?thesis
      using True by (subst sort_inner.simps) simp
  next
    case False
    then show ?thesis by (subst sort_inner.simps) simp
  qed
qed

lemma least_sort_inner:
  "i < j \<Longrightarrow> i < length xs \<Longrightarrow> (\<forall>k. i < k \<and> k < j \<longrightarrow> xs ! i \<le> xs ! k) \<Longrightarrow>
   i < k \<Longrightarrow> k < length xs \<Longrightarrow> sort_inner i j xs ! i \<le> sort_inner i j xs ! k"
proof (induction i j xs arbitrary: k rule: sort_inner.induct)
  case (1 i j xs)
  show ?case
  proof (cases "j < length xs")
    case True
    let ?ys = "if xs ! i > xs ! j then xs[i := xs ! j, j := xs ! i] else xs"
    have len: "length ?ys = length xs" by simp
    have inv: "\<forall>k. i < k \<and> k < j + 1 \<longrightarrow> ?ys ! i \<le> ?ys ! k"
    proof (intro allI impI)
      fix m assume m: "i < m \<and> m < j + 1"
      show "?ys ! i \<le> ?ys ! m"
      proof (cases "xs ! i > xs ! j")
        case gt: True
        show ?thesis
        proof (cases "m = j")
          case True
          then show ?thesis using gt "1.prems" \<open>j < length xs\<close> by simp
        next
          case False
          then have "m < j" using m by simp
          then have "xs ! i \<le> xs ! m" using "1.prems"(3) m by simp
          then have "xs ! j \<le> xs ! m" using gt by linarith
          then show ?thesis
            using gt False m "1.prems" \<open>j < length xs\<close> by simp
        qed
      next
        case le: False
        show ?thesis
        proof (cases "m = j")
          case True
          then show ?thesis using le by simp
        next
          case False
          then have "m < j" using m by simp
          then show ?thesis using le "1.prems"(3) m by simp
        qed
      qed
    qed
    have "sort_inner i (j + 1) ?ys ! i \<le> sort_inner i (j + 1) ?ys ! k"
      using "1.IH" [OF True _ _ inv, of k] "1.prems" len by simp
    then show ?thesis
      using True by (subst (1 2) sort_inner.simps) simp
  next
    case False
    then have "k < j" using "1.prems" by simp
    then show ?thesis
      using False "1.prems" by (subst (1 2) sort_inner.simps) simp
  qed
qed

lemma mset_drop_sort_inner:
  assumes "i < j" "i < length xs"
  shows "mset (drop i (sort_inner i j xs)) = mset (drop i xs)"
proof -
  let ?ys = "sort_inner i j xs"
  have "mset (take i ?ys) + mset (drop i ?ys) = mset ?ys"
    by (metis append_take_drop_id mset_append)
  moreover have "mset (take i xs) + mset (drop i xs) = mset xs"
    by (metis append_take_drop_id mset_append)
  ultimately have "mset (take i xs) + mset (drop i ?ys) = mset (take i xs) + mset (drop i xs)"
    using mset_sort_inner [OF assms(2), of j] take_sort_inner [OF assms(1), of xs] by simp
  then show ?thesis
    by (simp only: add_left_cancel)
qed

lemma sorted_upto_step:
  assumes inv: "sorted_upto i xs" and i: "i < length xs"
  shows "sorted_upto (i + 1) (sort_inner i (i + 1) xs)"
proof -
  let ?ys = "sort_inner i (i + 1) xs"
  have len: "length ?ys = length xs" by simp
  have tk: "take i ?ys = take i xs" by (rule take_sort_inner) simp
  have "mset (drop i ?ys) = mset (drop i xs)"
    using i by (intro mset_drop_sort_inner) simp_all
  then have dr: "set (drop i ?ys) = set (drop i xs)"
    by (rule mset_eq_setD)
  have least: "?ys ! i \<le> ?ys ! k" if "i < k" "k < length xs" for k
    using least_sort_inner [of i "i + 1" xs k] that i by simp
  have "drop i ?ys = ?ys ! i # drop (Suc i) ?ys"
    using i len by (simp add: Cons_nth_drop_Suc)
  then have yi: "?ys ! i \<in> set (drop i ?ys)" by simp
  have t1: "take (i + 1) ?ys = take i xs @ [?ys ! i]"
    using i len tk by (simp add: take_Suc_conv_app_nth)
  have below: "\<forall>x \<in> set (take i xs). x \<le> ?ys ! i"
    using inv yi dr by (simp add: sorted_upto_def)
  have s: "sorted (take (i + 1) ?ys)"
    unfolding t1 using inv below by (simp add: sorted_append sorted_upto_def)
  have sub: "set (drop (i + 1) ?ys) \<subseteq> set (drop i ?ys)"
    by (rule set_drop_subset_set_drop) simp
  have "x \<le> y" if x: "x \<in> set (take (i + 1) ?ys)" and y: "y \<in> set (drop (i + 1) ?ys)" for x y
  proof -
    from y obtain m where m: "m < length (drop (i + 1) ?ys)" "y = drop (i + 1) ?ys ! m"
      by (auto simp only: in_set_conv_nth)
    define k where "k = i + 1 + m"
    have k: "i < k" "k < length xs" using m(1) by (simp_all add: k_def)
    have yk: "y = ?ys ! k" using m k by (simp add: k_def)
    from x consider "x \<in> set (take i xs)" | "x = ?ys ! i" unfolding t1 by auto
    then show ?thesis
    proof cases
      case 1
      moreover have "y \<in> set (drop i xs)" using y sub dr by blast
      ultimately show ?thesis using inv by (simp add: sorted_upto_def)
    next
      case 2
      then show ?thesis using least [OF k] yk by simp
    qed
  qed
  with s show ?thesis by (simp add: sorted_upto_def)
qed

lemma sorted_sort_outer:
  "sorted_upto i xs \<Longrightarrow> i \<le> length xs \<Longrightarrow> sorted (sort_outer i xs)"
proof (induction i xs rule: sort_outer.induct)
  case (1 i xs)
  show ?case
  proof (cases "i < length xs")
    case True
    have "sorted (sort_outer (i + 1) (sort_inner i (i + 1) xs))"
      using "1.IH" [OF True sorted_upto_step [OF "1.prems"(1) True]] True by simp
    then show ?thesis using True by (subst sort_outer.simps) simp
  next
    case False
    then have "take i xs = xs" using "1.prems" by simp
    then show ?thesis
      using False "1.prems"(1) by (subst sort_outer.simps) (simp add: sorted_upto_def)
  qed
qed

lemma mset_sort_outer: "mset (sort_outer i xs) = mset xs"
proof (induction i xs rule: sort_outer.induct)
  case (1 i xs)
  show ?case
  proof (cases "i < length xs")
    case True
    then show ?thesis
      using "1.IH" [OF True] by (subst sort_outer.simps) (simp add: mset_sort_inner)
  next
    case False
    then show ?thesis by (subst sort_outer.simps) simp
  qed
qed

lemma sorted_simple_sort: "sorted (simple_sort xs)"
  unfolding simple_sort_def by (rule sorted_sort_outer) (simp_all add: sorted_upto_def)

lemma mset_simple_sort: "mset (simple_sort xs) = mset xs"
  by (simp add: simple_sort_def mset_sort_outer)

lemma simple_sort_eq_sort: "simple_sort xs = sort xs"
  by (rule properties_for_sort [symmetric]) (simp_all add: sorted_simple_sort mset_simple_sort)

subsection \<open>Percentiles\<close>

lemma percentile_index_whole:
  assumes n: "0 < n" and b: "n * (k + 1) \<le> 2 ^ 52"
  shows "percentile_index conv n (real k) = int (nearest_rank n (real k))"
proof -
  define x where "x = (int n - 1) * int k"
  define q where "q = x div 100"
  have x0: "0 \<le> x" using n by (simp add: x_def)
  have "int (n * (k + 1)) \<le> int (2 ^ 52)" using b by (simp only: of_nat_le_iff)
  then have ib: "int n * (int k + 1) \<le> 2 ^ 52" by (simp add: algebra_simps)
  have kn: "0 \<le> int n * int k" by simp
  have e1: "x = int n * int k - int k" by (simp add: x_def algebra_simps)
  have e2: "int n * (int k + 1) = int n * int k + int n" by (simp add: algebra_simps)
  have xb: "x < 2 ^ 52" using ib e1 e2 n by linarith
  have "(2::int) ^ 52 < 2 ^ 53" by simp
  then have "0 \<le> int n - 1" "int n - 1 < 2 ^ 53" using ib e2 kn n by linarith+
  then have nb: "\<bar>int n - 1\<bar> < 2 ^ 53" by simp
  have q0: "0 \<le> q" using x0 by (simp add: q_def pos_imp_zdiv_nonneg_iff)
  have qx: "q \<le> x" unfolding q_def using x0 by arith
  have a: "round64 (real_of_int (int n - 1)) = real_of_int (int n - 1)"
    using nb by (rule round64_of_int)
  have prod: "real_of_int (int n - 1) * real k = real_of_int x" by (simp add: x_def)
  have rx: "round64 (real_of_int x) = real_of_int x"
    using x0 xb by (intro round64_of_int) simp
  have xr: "real_of_int x \<le> 2 ^ 70"
  proof -
    have "x \<le> 2 ^ 70" using xb by simp
    then have "real_of_int x \<le> real_of_int (2 ^ 70)" by (simp only: of_int_le_iff)
    then show ?thesis by simp
  qed
  have m: "float_mul (round64 (real_of_int (int n - 1))) (real k) = Finite (real_of_int x)"
    unfolding float_mul_def a prod using x0 xr by (simp add: float64_of_finite rx)
  define w where "w = round64 (real_of_int x / 100)"
  have wl: "real_of_int q \<le> w" and wu: "w < real_of_int q + 1"
    unfolding w_def q_def using x0 xb by (rule round64_div100)+
  have w70: "w \<le> 2 ^ 70"
  proof -
    have "q + 1 \<le> 2 ^ 70" using qx xb by simp
    then have "real_of_int (q + 1) \<le> real_of_int (2 ^ 70)" by (simp only: of_int_le_iff)
    then show ?thesis using wu by simp
  qed
  have w0: "0 \<le> w" using wl q0 by simp
  have d: "float_over (Finite (real_of_int x)) 100 = Finite w"
    using w0 w70 by (simp add: float_over_def float_div_def float64_of_finite w_def)
  have fw: "\<lfloor>w\<rfloor> = q" using wl wu by (rule floor_between)
  have t: "toDuration conv (Finite w) = q"
    using w0 fw q0 qx xb by (simp add: toDuration_def trunc_def)
  have fl: "\<lfloor>real (n - 1) * real k / 100\<rfloor> = q"
  proof -
    have "real (n - 1) * real k = real_of_int x" using n by (simp add: x_def of_nat_diff)
    then have "\<lfloor>real (n - 1) * real k / 100\<rfloor> = \<lfloor>real_of_int x / real_of_int 100\<rfloor>" by simp
    also have "\<dots> = x div 100" by (rule floor_divide_of_int_eq)
    finally show ?thesis by (simp add: q_def)
  qed
  show ?thesis
    unfolding percentile_index_def m d t nearest_rank_def fl
    using q0 n by (auto simp: Let_def min_def)
qed

lemma float_counterexample_index:
  "percentile_index conv 8 (2010535547933257 / 2 ^ 47) = 1"
proof -
  have r: "round64 (7 * (2010535547933257 / 2 ^ 47)) = 100"
    by (subst round64_eqI [of 6]) (simp_all add: round_half_even_def)
  have a: "round64 (real_of_int (int 8 - 1)) = 7" by simp
  have "float64_of (7 * (2010535547933257 / 2 ^ 47))
      = Finite (round64 (7 * (2010535547933257 / 2 ^ 47)))"
    by (rule float64_of_finite) (unfold r, simp_all)
  then have m: "float_mul (round64 (real_of_int (int 8 - 1))) (2010535547933257 / 2 ^ 47) = Finite 100"
    unfolding float_mul_def a r .
  have d: "float_over (Finite 100) 100 = Finite 1"
    by (simp add: float_over_def float_div_def float64_of_finite)
  show ?thesis
    unfolding percentile_index_def m d by (simp add: toDuration_def trunc_def)
qed

lemma index_3_999: "percentile_index conv 3 (round64 (999 / 10)) = 1"
proof -
  have r: "round64 (2 * (7029837543348634 / 2 ^ 46)) = 7029837543348634 / 2 ^ 45"
    by (subst round64_eqI [of 7]) (simp_all add: round_half_even_def)
  have a: "round64 (real_of_int (int 3 - 1)) = 2" by simp
  have "float64_of (2 * (7029837543348634 / 2 ^ 46))
      = Finite (round64 (2 * (7029837543348634 / 2 ^ 46)))"
    by (rule float64_of_finite) (unfold r, simp_all)
  then have m: "float_mul (round64 (real_of_int (int 3 - 1))) (round64 (999 / 10))
      = Finite (7029837543348634 / 2 ^ 45)"
    unfolding float_mul_def a round64_999 r .
  have r2: "round64 (7029837543348634 / 2 ^ 45 / 100) = 8998192055486252 / 2 ^ 52"
    by (subst round64_eqI [of 0]) (simp_all add: round_half_even_def)
  have "float64_of (7029837543348634 / 2 ^ 45 / 100)
      = Finite (round64 (7029837543348634 / 2 ^ 45 / 100))"
    by (rule float64_of_finite) (unfold r2, simp_all)
  then have d: "float_over (Finite (7029837543348634 / 2 ^ 45)) 100
      = Finite (8998192055486252 / 2 ^ 52)"
    unfolding float_over_def float_div_def r2 by simp
  show ?thesis
    unfolding percentile_index_def m d by (simp add: toDuration_def trunc_def)
qed

lemma percentile_index_min:
  assumes n: "0 < n" "n \<le> 2 ^ 62" and p: "0 \<le> p" "p \<le> 100"
  shows "percentile_index conv n p
           = min \<lfloor>round64 (round64 (round64 (real_of_int (int n - 1)) * p) / 100)\<rfloor> (int n - 1)"
    and "0 \<le> \<lfloor>round64 (round64 (round64 (real_of_int (int n - 1)) * p) / 100)\<rfloor>"
proof -
  define a where "a = round64 (real_of_int (int n - 1))"
  define v where "v = round64 (a * p)"
  define w where "w = round64 (v / 100)"
  have n0: "0 \<le> real_of_int (int n - 1)" using n(1) by simp
  have "int n \<le> int (2 ^ 62)" using n(2) by (simp only: of_nat_le_iff)
  then have "int n - 1 \<le> 2 ^ 62" by simp
  then have "real_of_int (int n - 1) \<le> real_of_int (2 ^ 62)" by (simp only: of_int_le_iff)
  then have n1: "real_of_int (int n - 1) \<le> 2 ^ 62" by simp
  have a0: "0 \<le> a" unfolding a_def using n0 by (rule round64_nonneg)
  have "a \<le> round64 (2 ^ 62)" unfolding a_def using n0 n1 by (rule round64_mono)
  then have a1: "a \<le> 2 ^ 62" by (simp only: round64_two_power)
  have ap0: "0 \<le> a * p" using a0 p(1) by simp
  have "a * p \<le> 2 ^ 62 * 100" using a0 a1 p by (intro mult_mono) simp_all
  then have ap1: "a * p \<le> 100 * 2 ^ 62" by simp
  have v0: "0 \<le> v" unfolding v_def using ap0 by (rule round64_nonneg)
  have "v \<le> round64 (100 * 2 ^ 62)" unfolding v_def using ap0 ap1 by (rule round64_mono)
  then have v1: "v \<le> 100 * 2 ^ 62" by (simp only: round64_100_two_power)
  have v70: "v \<le> 2 ^ 70" using v1 by simp
  have q0: "0 \<le> v / 100" using v0 by simp
  have q1: "v / 100 \<le> 2 ^ 62" using v1 by simp
  have w0: "0 \<le> w" unfolding w_def using q0 by (rule round64_nonneg)
  have "w \<le> round64 (2 ^ 62)" unfolding w_def using q0 q1 by (rule round64_mono)
  then have w1: "w \<le> 2 ^ 62" by (simp only: round64_two_power)
  have w70: "w \<le> 2 ^ 70" using w1 by simp
  have m: "float_mul a p = Finite v"
    unfolding float_mul_def v_def using v0 v70 by (simp add: float64_of_finite v_def)
  have d: "float_over (Finite v) 100 = Finite w"
    using w0 w70 by (simp add: float_over_def float_div_def float64_of_finite w_def)
  have f0: "0 \<le> \<lfloor>w\<rfloor>" using w0 by simp
  have "\<lfloor>w\<rfloor> \<le> 2 ^ 62"
  proof -
    have "w \<le> real_of_int (2 ^ 62)" using w1 by simp
    then show ?thesis by (simp only: floor_le_iff)
  qed
  then have f1: "\<lfloor>w\<rfloor> < 2 ^ 63" by simp
  have t: "toDuration conv (Finite w) = \<lfloor>w\<rfloor>"
    using w0 f0 f1 by (simp add: toDuration_def trunc_def)
  show "percentile_index conv n p
           = min \<lfloor>round64 (round64 (round64 (real_of_int (int n - 1)) * p) / 100)\<rfloor> (int n - 1)"
    unfolding percentile_index_def a_def [symmetric] m d t
    unfolding v_def [symmetric] w_def [symmetric]
    by (auto simp: Let_def min_def)
  show "0 \<le> \<lfloor>round64 (round64 (round64 (real_of_int (int n - 1)) * p) / 100)\<rfloor>"
    unfolding a_def [symmetric] v_def [symmetric] w_def [symmetric] by (rule f0)
qed

lemma percentile_index_nonneg:
  assumes "0 < n" "n \<le> 2 ^ 62" "0 \<le> p" "p \<le> 100"
  shows "0 \<le> percentile_index conv n p" and "percentile_index conv n p < int n"
  using percentile_index_min(1) [OF assms, of conv] percentile_index_min(2) [OF assms] assms(1)
  by simp_all

lemma percentile_index_mono:
  assumes n: "0 < n" "n \<le> 2 ^ 62" and p: "0 \<le> p" "p \<le> q" "q \<le> 100"
  shows "percentile_index conv n p \<le> percentile_index conv n q"
proof -
  define a where "a = round64 (real_of_int (int n - 1))"
  have a0: "0 \<le> a" unfolding a_def using n(1) by (intro round64_nonneg) simp
  have "a * p \<le> a * q" using p(2) a0 by (rule mult_left_mono)
  moreover have "0 \<le> a * p" using a0 p(1) by simp
  ultimately have v: "round64 (a * p) \<le> round64 (a * q)" by (intro round64_mono)
  have "0 \<le> round64 (a * p)" using a0 p(1) by (intro round64_nonneg) simp
  then have "round64 (round64 (a * p) / 100) \<le> round64 (round64 (a * q) / 100)"
    using v by (intro round64_mono) simp_all
  then have "\<lfloor>round64 (round64 (a * p) / 100)\<rfloor> \<le> \<lfloor>round64 (round64 (a * q) / 100)\<rfloor>"
    by (rule floor_mono)
  moreover have "p \<le> 100" "0 \<le> q" using p by simp_all
  ultimately show ?thesis
    using percentile_index_min(1) [OF n p(1), of conv] percentile_index_min(1) [OF n _ p(3), of conv]
    by (simp add: a_def min_def)
qed

lemma nearest_rank_less: "0 < n \<Longrightarrow> nearest_rank n p < n"
proof -
  assume "0 < n"
  moreover have "nearest_rank n p \<le> n - 1" unfolding nearest_rank_def by (rule min.cobounded2)
  ultimately show ?thesis by linarith
qed

lemma calculatePercentile_whole:
  assumes "xs \<noteq> []" "length xs * (k + 1) \<le> 2 ^ 52"
  shows "calculatePercentile conv xs (real k) = Some (xs ! nearest_rank (length xs) (real k))"
  using assms percentile_index_whole [of "length xs" k conv]
  by (simp add: calculatePercentile_def Let_def)

lemma CalculatePercentile_whole:
  assumes "xs \<noteq> []" "length xs * (k + 1) \<le> 2 ^ 52"
  shows "CalculatePercentile conv xs (real k) = Some (sort xs ! nearest_rank (length xs) (real k))"
proof -
  have len: "length (simple_sort xs) = length xs"
    by (simp add: simple_sort_eq_sort)
  show ?thesis
    using assms percentile_index_whole [of "length xs" k conv]
    by (simp add: CalculatePercentile_def Let_def len) (simp add: simple_sort_eq_sort)
qed

lemma sample_rank [simp]: "nearest_rank 5 50 = 2" "nearest_rank 5 90 = 3" "nearest_rank 5 0 = 0"
  by (simp_all add: nearest_rank_def)

text \<open>
  Claim C5, as the code has it. The index is computed in \<^verbatim>\<open>float64\<close>: the product of the
  converted length and the percentile is rounded, the quotient by 100 is rounded, and
  the result is truncated and clamped. For a sample that is not empty and a percentile
  that is a whole number \<open>k\<close>, with \<open>n * (k + 1)\<close> at most \<open>2 ^ 52\<close>, none of
  the roundings changes the index: \<^verbatim>\<open>calculatePercentile\<close> returns the element at index
  \<open>floor ((n - 1) * k / 100)\<close>, clamped to the last index, and
  \<^verbatim>\<open>utils.CalculatePercentile\<close> returns that element of the sample in ascending order.
  For the sample of 100, 200, 300, 400 and 500 ms, P50 is 300 ms, P90 is 400 ms and P0 is
  100 ms.
\<close>

theorem whole_percentile_is_nearest_rank:
  "(xs \<noteq> [] \<and> length xs * (k + 1) \<le> 2 ^ 52 \<longrightarrow>
      calculatePercentile conv xs (real k)
        = Some (xs ! min (nat \<lfloor>real (length xs - 1) * real k / 100\<rfloor>) (length xs - 1)) \<and>
      CalculatePercentile conv xs (real k)
        = Some (sort xs ! min (nat \<lfloor>real (length xs - 1) * real k / 100\<rfloor>)
                               (length xs - 1))) \<and>
   calculatePercentile conv sample5 50 = Some (300 * Millisecond) \<and>
   calculatePercentile conv sample5 90 = Some (400 * Millisecond) \<and>
   calculatePercentile conv sample5 0 = Some (100 * Millisecond) \<and>
   CalculatePercentile conv sample5 50 = Some (300 * Millisecond) \<and>
   CalculatePercentile conv sample5 90 = Some (400 * Millisecond) \<and>
   CalculatePercentile conv sample5 0 = Some (100 * Millisecond)"
proof -
  have len: "length sample5 = 5" and ne: "sample5 \<noteq> []"
    by (simp_all add: sample5_def)
  have srt: "sort sample5 = sample5"
    by (simp add: sample5_def Millisecond_def)
  have c: "calculatePercentile conv sample5 (real j) = Some (sample5 ! nearest_rank 5 (real j))"
    and u: "CalculatePercentile conv sample5 (real j) = Some (sample5 ! nearest_rank 5 (real j))"
    if "j \<le> 100" for j
    using that calculatePercentile_whole [of sample5 j conv]
      CalculatePercentile_whole [of sample5 j conv] ne
    by (simp_all add: len srt)
  have v: "sample5 ! 2 = 300 * Millisecond" "sample5 ! 3 = 400 * Millisecond"
    "sample5 ! 0 = 100 * Millisecond"
    by (simp_all add: sample5_def)
  have gen: "xs \<noteq> [] \<and> length xs * (k + 1) \<le> 2 ^ 52 \<longrightarrow>
      calculatePercentile conv xs (real k)
        = Some (xs ! min (nat \<lfloor>real (length xs - 1) * real k / 100\<rfloor>) (length xs - 1)) \<and>
      CalculatePercentile conv xs (real k)
        = Some (sort xs ! min (nat \<lfloor>real (length xs - 1) * real k / 100\<rfloor>)
                               (length xs - 1))"
    using calculatePercentile_whole [of xs k conv] CalculatePercentile_whole [of xs k conv]
    unfolding nearest_rank_def by blast
  have "calculatePercentile conv sample5 50 = Some (300 * Millisecond)"
    "calculatePercentile conv sample5 90 = Some (400 * Millisecond)"
    "calculatePercentile conv sample5 0 = Some (100 * Millisecond)"
    "CalculatePercentile conv sample5 50 = Some (300 * Millisecond)"
    "CalculatePercentile conv sample5 90 = Some (400 * Millisecond)"
    "CalculatePercentile conv sample5 0 = Some (100 * Millisecond)"
    using c [of 50] c [of 90] c [of 0] u [of 50] u [of 90] u [of 0] by (simp_all add: v)
  with gen show ?thesis by blast
qed

theorem whole_percentile_is_nearest_rank_witness:
  "calculatePercentile conv_amd64 [30, 10, 20] 150 = Some 20 \<and>
   CalculatePercentile conv_amd64 [30, 10, 20] 95 = Some 20"
  using whole_percentile_is_nearest_rank [of "[30, 10, 20]" 150 conv_amd64]
    whole_percentile_is_nearest_rank [of "[30, 10, 20]" 95 conv_amd64]
  by simp

text \<open>
  Claim C5 as stated fails for a percentile at which a rounding crosses a whole number.
  For a sample of eight and the \<^verbatim>\<open>float64\<close> next below 100 / 7, the exact
  \<open>7 * p / 100\<close> is below 1 and its floor is 0, the first element; the rounded
  product \<open>7 * p\<close> is 100, the index is 1, and the code returns the second
  element.
\<close>

theorem float_rounding_counterexample:
  "calculatePercentile conv_amd64 [10, 20, 30, 40, 50, 60, 70, 80] (2010535547933257 / 2 ^ 47)
     = Some 20 \<and>
   CalculatePercentile conv_amd64 [10, 20, 30, 40, 50, 60, 70, 80] (2010535547933257 / 2 ^ 47)
     = Some 20 \<and>
   [10, 20, 30, 40, 50, 60, 70, 80]
     ! min (nat \<lfloor>real (8 - 1) * (2010535547933257 / 2 ^ 47) / 100\<rfloor>) (8 - 1) = (10::int) \<and>
   round64 (2010535547933257 / 2 ^ 47) = 2010535547933257 / 2 ^ 47"
proof -
  have s: "simple_sort [10, 20, 30, 40, 50, 60, 70, 80] = [10, 20, 30, 40, 50, 60, 70, 80]"
    by (simp add: simple_sort_eq_sort)
  have len: "length [10 :: Duration, 20, 30, 40, 50, 60, 70, 80] = 8" by simp
  have c: "calculatePercentile conv_amd64 [10, 20, 30, 40, 50, 60, 70, 80]
      (2010535547933257 / 2 ^ 47) = Some 20"
    unfolding calculatePercentile_def len float_counterexample_index by simp
  have u: "CalculatePercentile conv_amd64 [10, 20, 30, 40, 50, 60, 70, 80]
      (2010535547933257 / 2 ^ 47) = Some 20"
    unfolding CalculatePercentile_def Let_def s len float_counterexample_index by simp
  have f: "[10, 20, 30, 40, 50, 60, 70, 80]
     ! min (nat \<lfloor>real (8 - 1) * (2010535547933257 / 2 ^ 47) / 100\<rfloor>) (8 - 1) = (10::int)"
    by simp
  have r: "round64 (2010535547933257 / 2 ^ 47) = 2010535547933257 / 2 ^ 47"
    using round64_exact [of 2010535547933257 "- 47"] by (simp add: power_int_minus field_simps)
  from c u f r show ?thesis by blast
qed

subsection \<open>Latency statistics\<close>

lemma latencies_RecordResponse:
  "latencies (RecordResponse c resp) = latencies c @ [ResponseTime resp]"
  by (simp add: RecordResponse_def updateLatency_def updateStatusCode_def recordError_def Let_def
      split: option.splits)

lemma minLatency_RecordResponse:
  "minLatency (RecordResponse c resp)
     = (if minLatency c = 0 \<or> ResponseTime resp < minLatency c then ResponseTime resp
        else minLatency c)"
  by (simp add: RecordResponse_def updateLatency_def updateStatusCode_def recordError_def Let_def
      split: option.splits)

lemma maxLatency_RecordResponse:
  "maxLatency (RecordResponse c resp)
     = (if ResponseTime resp > maxLatency c then ResponseTime resp else maxLatency c)"
  by (simp add: RecordResponse_def updateLatency_def updateStatusCode_def recordError_def Let_def
      split: option.splits)

lemma totalLatency_RecordResponse:
  "totalLatency (RecordResponse c resp) = wrap64 (totalLatency c + ResponseTime resp)"
  by (simp add: RecordResponse_def updateLatency_def updateStatusCode_def recordError_def Let_def
      split: option.splits)

text \<open>
  Claim C6: the code evaluated on three responses with latencies of 5, 0 and 7 ns. The
  latency of zero becomes the running minimum, which \<^verbatim>\<open>updateLatency\<close> then takes for
  "not set": the next latency, 7, replaces it. The summary reports a minimum of 7 above
  a median of 5.
\<close>

theorem zero_latency_resets_minimum:
  "calculateLatencyStats conv_amd64 (foldl RecordResponse NewCollector [timed 5, timed 0, timed 7])
     = Some \<lparr>st_Min = 7, st_Max = 7, Mean = 4, Median = 5, P90 = 5, P95 = 5, P99 = 5,
             P99_9 = 5\<rparr>"
proof -
  let ?c = "foldl RecordResponse NewCollector [timed 5, timed 0, timed 7]"
  have l: "latencies ?c = [5, 0, 7]"
    by (simp add: latencies_RecordResponse timed_def NewCollector_def)
  have mn: "minLatency ?c = 7"
    by (simp add: minLatency_RecordResponse timed_def NewCollector_def)
  have mx: "maxLatency ?c = 7"
    by (simp add: maxLatency_RecordResponse timed_def NewCollector_def)
  have t: "totalLatency ?c = 12"
    by (simp add: totalLatency_RecordResponse timed_def NewCollector_def wrap64_def)
  have s: "simple_sort [5, 0, 7] = [0, 5, 7]"
    by (simp add: simple_sort_eq_sort)
  have i: "percentile_index conv_amd64 3 50 = 1" "percentile_index conv_amd64 3 90 = 1"
    "percentile_index conv_amd64 3 95 = 1" "percentile_index conv_amd64 3 99 = 1"
    using percentile_index_whole [of 3 50 conv_amd64] percentile_index_whole [of 3 90 conv_amd64]
      percentile_index_whole [of 3 95 conv_amd64] percentile_index_whole [of 3 99 conv_amd64]
    by (simp_all add: nearest_rank_def)
  have len: "length [0 :: Duration, 5, 7] = 3" by simp
  have p: "calculatePercentile conv_amd64 [0, 5, 7] 50 = Some 5"
    "calculatePercentile conv_amd64 [0, 5, 7] 90 = Some 5"
    "calculatePercentile conv_amd64 [0, 5, 7] 95 = Some 5"
    "calculatePercentile conv_amd64 [0, 5, 7] 99 = Some 5"
    "calculatePercentile conv_amd64 [0, 5, 7] (round64 (999 / 10)) = Some 5"
    unfolding calculatePercentile_def len i index_3_999 by simp_all
  show ?thesis
    unfolding calculateLatencyStats_def l mn mx t
    by (simp add: s p go_quot_def)
qed

theorem zero_latency_resets_minimum_witness:
  "\<exists>st. calculateLatencyStats conv_amd64
           (foldl RecordResponse NewCollector [timed 5, timed 0, timed 7]) = Some st \<and>
         Median st < st_Min st"
  using zero_latency_resets_minimum by simp

lemma latencies_foldl:
  "latencies (foldl RecordResponse c rs) = latencies c @ map ResponseTime rs"
  by (induction rs arbitrary: c) (simp_all add: latencies_RecordResponse)

lemma max_bounds_RecordResponse: "max_bounds c \<Longrightarrow> max_bounds (RecordResponse c resp)"
  unfolding max_bounds_def latencies_RecordResponse maxLatency_RecordResponse
  by (auto simp: not_less intro: order_trans less_imp_le)

lemma max_bounds_foldl: "max_bounds c \<Longrightarrow> max_bounds (foldl RecordResponse c rs)"
  by (induction rs arbitrary: c) (simp_all add: max_bounds_RecordResponse)

lemma min_bounds_RecordResponse:
  assumes "min_bounds c" "0 \<notin> set (latencies c)" "ResponseTime resp \<noteq> 0"
  shows "min_bounds (RecordResponse c resp)"
proof (cases "latencies c = []")
  case True
  then show ?thesis
    using assms(1) by (simp add: min_bounds_def latencies_RecordResponse minLatency_RecordResponse)
next
  case False
  then have m: "minLatency c \<in> set (latencies c)" "\<forall>x \<in> set (latencies c). minLatency c \<le> x"
    using assms(1) by (auto simp: min_bounds_def)
  then have "minLatency c \<noteq> 0" using assms(2) by auto
  then show ?thesis
    using m unfolding min_bounds_def latencies_RecordResponse minLatency_RecordResponse
    by (auto simp: not_less intro: order_trans less_imp_le)
qed

lemma min_bounds_foldl:
  "min_bounds c \<Longrightarrow> 0 \<notin> set (latencies c) \<Longrightarrow> \<forall>r \<in> set rs. ResponseTime r \<noteq> 0 \<Longrightarrow>
   min_bounds (foldl RecordResponse c rs)"
proof (induction rs arbitrary: c)
  case Nil
  then show ?case by simp
next
  case (Cons r rs)
  have "min_bounds (RecordResponse c r)"
    using Cons.prems by (intro min_bounds_RecordResponse) simp_all
  moreover have "0 \<notin> set (latencies (RecordResponse c r))"
    using Cons.prems by (auto simp: latencies_RecordResponse)
  ultimately show ?case
    using Cons.IH [of "RecordResponse c r"] Cons.prems(3) by simp
qed

lemma percentile_of_sample:
  assumes "xs \<noteq> []" "length xs \<le> 2 ^ 62" "0 \<le> p" "p \<le> 100"
  shows "calculatePercentile conv xs p = Some (xs ! nat (percentile_index conv (length xs) p))"
  using percentile_index_nonneg(1) [of "length xs" p conv] assms
  by (simp add: calculatePercentile_def Let_def)

text \<open>
  Without a latency of zero in the sample the statistics are in order: the minimum is
  the least element, the maximum bounds every element, and the five percentiles are
  elements of the sorted sample at indices that grow with the percentile.
\<close>

lemma latency_order_without_zero:
  assumes ne: "rs \<noteq> []" and nz: "\<forall>r \<in> set rs. ResponseTime r \<noteq> 0"
    and len: "length rs \<le> 2 ^ 62"
  shows "\<exists>st. calculateLatencyStats conv (foldl RecordResponse NewCollector rs) = Some st \<and>
           st_Min st \<le> Median st \<and> Median st \<le> P90 st \<and> P90 st \<le> P95 st \<and>
           P95 st \<le> P99 st \<and> P99 st \<le> P99_9 st \<and> P99_9 st \<le> st_Max st"
proof -
  let ?c = "foldl RecordResponse NewCollector rs"
  let ?s = "simple_sort (latencies ?c)"
  let ?n = "length rs"
  let ?i = "\<lambda>p. nat (percentile_index conv ?n p)"
  have n0: "0 < ?n" using ne by simp
  have l: "latencies ?c = map ResponseTime rs"
    by (simp add: latencies_foldl NewCollector_def)
  have sl: "length ?s = ?n" by (simp add: simple_sort_eq_sort l)
  have sne: "?s \<noteq> []" using ne sl by auto
  have sset: "set ?s = set (latencies ?c)" by (simp add: simple_sort_eq_sort)
  have srt: "sorted ?s" by (rule sorted_simple_sort)
  have t: "99 \<le> round64 (999 / 10)" "round64 (999 / 10) \<le> 100"
    unfolding round64_999 by simp_all
  have pc: "calculatePercentile conv ?s p = Some (?s ! ?i p)" if "0 \<le> p" "p \<le> 100" for p
    using percentile_of_sample [OF sne _ that, of conv] len sl by simp
  have rk: "?i p < length ?s" if "0 \<le> p" "p \<le> 100" for p
    using percentile_index_nonneg [OF n0 len that, of conv] sl by simp
  have mono: "?s ! ?i p \<le> ?s ! ?i q" if "0 \<le> p" "p \<le> q" "q \<le> 100" for p q
  proof -
    have "?i p \<le> ?i q" using percentile_index_mono [OF n0 len that, of conv] by (rule nat_mono)
    moreover have "?i q < length ?s" using that by (intro rk) simp_all
    ultimately show ?thesis using srt by (intro sorted_nth_mono)
  qed
  have "max_bounds ?c" by (intro max_bounds_foldl) (simp add: max_bounds_def NewCollector_def)
  then have hi: "?s ! ?i p \<le> maxLatency ?c" if "0 \<le> p" "p \<le> 100" for p
    using rk [OF that] sset nth_mem [of "?i p" ?s] by (auto simp: max_bounds_def)
  have "min_bounds ?c"
    using nz by (intro min_bounds_foldl) (simp_all add: min_bounds_def NewCollector_def)
  then have "\<forall>x \<in> set (latencies ?c). minLatency ?c \<le> x"
    using ne l by (auto simp: min_bounds_def)
  then have lo: "minLatency ?c \<le> ?s ! ?i p" if "0 \<le> p" "p \<le> 100" for p
    using rk [OF that] sset nth_mem [of "?i p" ?s] by auto
  have lne: "length (latencies ?c) \<noteq> 0" using ne l by simp
  show ?thesis
    unfolding calculateLatencyStats_def
    using lne t pc [of 50] pc [of 90] pc [of 95] pc [of 99] pc [of "round64 (999 / 10)"]
      mono [of 50 90] mono [of 90 95] mono [of 95 99] mono [of 99 "round64 (999 / 10)"]
      lo [of 50] hi [of "round64 (999 / 10)"]
    by (simp add: Let_def)
qed

end
